theory Spec2Isabelle
  imports Main
begin

section \<open>The parse graph: states and branches on a heap\<close>

text \<open>
  The program (graph.cpp) links \<open>State\<close> and \<open>Branch\<close> objects through shared pointers and
  compares them by pointer identity. The model keeps every object in a store and uses the
  position of an object in the store as its pointer: allocating (\<open>make_shared\<close>) appends to
  the store and yields a position never handed out before.
\<close>

type_synonym state_ref = nat
type_synonym branch_ref = nat

record State =
  m_name :: string
  m_branches :: "branch_ref list"

record Branch =
  m_nextState :: state_ref

record heap =
  states :: "State list"
  branches :: "Branch list"

definition empty_heap :: heap where
  "empty_heap = \<lparr>states = [], branches = []\<rparr>"

text \<open>Dereferencing a pointer that designates no object is the fault \<open>InvalidPointer\<close>.\<close>

definition getState :: "heap \<Rightarrow> state_ref \<Rightarrow> State option" where
  "getState h s = (if s < length (states h) then Some (states h ! s) else None)"

definition getBranch :: "heap \<Rightarrow> branch_ref \<Rightarrow> Branch option" where
  "getBranch h b = (if b < length (branches h) then Some (branches h ! b) else None)"

section \<open>createGraph\<close>

text \<open>
  \<open>StateToBranchedStates\<close> is an unordered map from a state name to the names of the states
  it branches to. Both loops of \<open>createGraph\<close> walk the same map object, so they see its
  entries in one and the same sequence; the model is given that sequence. A map holds
  each name once, so the sequences \<open>createGraph\<close> can receive are those with distinct
  names, in any order; the theorems about \<open>createGraph\<close> are stated for these.
\<close>

type_synonym StateToBranchedStates = "(string \<times> string list) list"

text \<open>
  \<open>createGraph\<close> returns a null pointer on each failure, after one of three messages on the
  error stream; the model returns the kind of message. \<open>BuildAssertion\<close> is the
  \<open>assert\<close> of the second loop.
\<close>

datatype build_error =
    DuplicateState string
  | UnresolvedReference string
  | MissingEntryState
  | BuildAssertion

fun declareStates ::
  "StateToBranchedStates \<Rightarrow> (string \<rightharpoonup> state_ref) \<times> heap
     \<Rightarrow> build_error + ((string \<rightharpoonup> state_ref) \<times> heap)" where
  "declareStates [] acc = Inr acc"
| "declareStates ((stateName, branched) # rest) (namesToStates, h) =
     (case namesToStates stateName of
        Some _ \<Rightarrow> Inl (DuplicateState stateName)
      | None \<Rightarrow>
          declareStates rest
            (namesToStates(stateName \<mapsto> length (states h)),
             h\<lparr>states := states h @ [\<lparr>m_name = stateName, m_branches = []\<rparr>]\<rparr>))"

definition push_branch :: "heap \<Rightarrow> state_ref \<Rightarrow> state_ref \<Rightarrow> heap" where
  "push_branch h s t =
     h\<lparr>branches := branches h @ [\<lparr>m_nextState = t\<rparr>],
       states := (states h)
         [s := (states h ! s)\<lparr>m_branches := m_branches (states h ! s) @ [length (branches h)]\<rparr>]\<rparr>"

fun linkBranches ::
  "(string \<rightharpoonup> state_ref) \<Rightarrow> state_ref \<Rightarrow> string list \<Rightarrow> heap \<Rightarrow> build_error + heap" where
  "linkBranches namesToStates s [] h = Inr h"
| "linkBranches namesToStates s (branchedStateName # rest) h =
     (case namesToStates branchedStateName of
        None \<Rightarrow> Inl (UnresolvedReference branchedStateName)
      | Some t \<Rightarrow> linkBranches namesToStates s rest (push_branch h s t))"

fun linkStates ::
  "(string \<rightharpoonup> state_ref) \<Rightarrow> StateToBranchedStates \<Rightarrow> heap \<Rightarrow> build_error + heap" where
  "linkStates namesToStates [] h = Inr h"
| "linkStates namesToStates ((stateName, branched) # rest) h =
     (case namesToStates stateName of
        None \<Rightarrow> Inl BuildAssertion
      | Some s \<Rightarrow>
          (case linkBranches namesToStates s branched h of
             Inl e \<Rightarrow> Inl e
           | Inr h' \<Rightarrow> linkStates namesToStates rest h'))"

definition createGraph :: "StateToBranchedStates \<Rightarrow> build_error + (heap \<times> state_ref)" where
  "createGraph graph =
     (case declareStates graph (Map.empty, empty_heap) of
        Inl e \<Rightarrow> Inl e
      | Inr (namesToStates, h) \<Rightarrow>
          (case linkStates namesToStates graph h of
             Inl e \<Rightarrow> Inl e
           | Inr h' \<Rightarrow>
               (case namesToStates ''start'' of
                  None \<Rightarrow> Inl MissingEntryState
                | Some s \<Rightarrow> Inr (h', s))))"

text \<open>
  A specification is written as a list of entries, as \<open>ParseGraph\<close> is in the source.
  The map is built from the list by inserting the entries one after the other, and the
  insertion of a name that the map already holds changes nothing (\<open>std::unordered_map\<close>).
  \<open>unordered_map_of\<close> gives the entries the map then holds: the first entry of each name.
\<close>

fun unordered_map_of :: "(string \<times> string list) list \<Rightarrow> StateToBranchedStates" where
  "unordered_map_of [] = []"
| "unordered_map_of (entry # rest) =
     entry # filter (\<lambda>e. fst e \<noteq> fst entry) (unordered_map_of rest)"

section \<open>ParsePath\<close>

record Element =
  m_state :: state_ref
  m_branch :: "branch_ref option"

type_synonym ParsePath = "Element list"

datatype fault = OutOfFuel | AssertionFailed | InvalidPointer

definition pushState :: "ParsePath \<Rightarrow> state_ref \<Rightarrow> ParsePath" where
  "pushState m_elements s = m_elements @ [\<lparr>m_state = s, m_branch = None\<rparr>]"

definition popState :: "ParsePath \<Rightarrow> fault + ParsePath" where
  "popState m_elements =
     (if m_elements = [] then Inl AssertionFailed else Inr (butlast m_elements))"

definition followBranch :: "heap \<Rightarrow> ParsePath \<Rightarrow> branch_ref \<Rightarrow> fault + (bool \<times> ParsePath)" where
  "followBranch h m_elements branch =
     (if m_elements = [] then Inl AssertionFailed
      else
        (case getBranch h branch of
           None \<Rightarrow> Inl InvalidPointer
         | Some br \<Rightarrow>
             if m_nextState br = m_state (last m_elements) then Inr (False, m_elements)
             else if list_ex (\<lambda>elem. m_state elem = m_state (last m_elements)
                                  \<and> m_branch elem = Some branch) m_elements
             then Inr (False, m_elements)
             else Inr (True, butlast m_elements @ [(last m_elements)\<lparr>m_branch := Some branch\<rparr>])))"

section \<open>findPaths\<close>

text \<open>
  The search threads three things: the vector \<open>paths\<close> of finished paths, the error stream
  (one entry per reported loop: the path printed with it) and \<open>currentPath\<close>.
  The first argument bounds the depth of the recursion: a call that would need to go
  deeper is the fault \<open>OutOfFuel\<close>.
\<close>

type_synonym search = "ParsePath list \<times> ParsePath list \<times> ParsePath"

fun findPathsImpl :: "nat \<Rightarrow> heap \<Rightarrow> search \<Rightarrow> state_ref \<Rightarrow> fault + search"
and followBranches ::
  "nat \<Rightarrow> heap \<Rightarrow> branch_ref list \<Rightarrow> search \<Rightarrow> bool \<Rightarrow> fault + (search \<times> bool)" where
  "findPathsImpl 0 h sr state = Inl OutOfFuel"
| "findPathsImpl (Suc n) h (paths, cerr, currentPath) state =
     (case getState h state of
        None \<Rightarrow> Inl InvalidPointer
      | Some st \<Rightarrow>
          if m_branches st = [] then
            (case popState (pushState currentPath state) of
               Inl f \<Rightarrow> Inl f
             | Inr p \<Rightarrow> Inr (paths @ [pushState currentPath state], cerr, p))
          else
            (case followBranches n h (m_branches st)
                    (paths, cerr, pushState currentPath state) False of
               Inl f \<Rightarrow> Inl f
             | Inr ((paths', cerr', currentPath'), branchFollowed) \<Rightarrow>
                 (case popState currentPath' of
                    Inl f \<Rightarrow> Inl f
                  | Inr p \<Rightarrow>
                      Inr (paths',
                           (if branchFollowed then cerr' else cerr' @ [currentPath']), p))))"
| "followBranches n h [] sr branchFollowed = Inr (sr, branchFollowed)"
| "followBranches n h (branch # rest) (paths, cerr, currentPath) branchFollowed =
     (case followBranch h currentPath branch of
        Inl f \<Rightarrow> Inl f
      | Inr (followed, currentPath') \<Rightarrow>
          if followed then
            (case getBranch h branch of
               None \<Rightarrow> Inl InvalidPointer
             | Some br \<Rightarrow>
                 (case findPathsImpl n h (paths, cerr, currentPath') (m_nextState br) of
                    Inl f \<Rightarrow> Inl f
                  | Inr sr \<Rightarrow> followBranches n h rest sr True))
          else followBranches n h rest (paths, cerr, currentPath') branchFollowed)"

definition findPaths ::
  "nat \<Rightarrow> heap \<Rightarrow> ParsePath list \<Rightarrow> state_ref \<Rightarrow> fault + (ParsePath list \<times> ParsePath list)" where
  "findPaths n h paths state =
     (case findPathsImpl n h (paths, [], []) state of
        Inl f \<Rightarrow> Inl f
      | Inr (paths', cerr, _) \<Rightarrow> Inr (paths', cerr))"

text \<open>The names of the states of a path, in order: what \<open>operator<<\<close> prints between separators.\<close>

definition pathNames :: "heap \<Rightarrow> ParsePath \<Rightarrow> string list" where
  "pathNames h p = map (\<lambda>elem. m_name (states h ! m_state elem)) p"

definition ParseGraph :: StateToBranchedStates where
  "ParseGraph =
     [(''start'', [''start_loop'', ''s1'']),
      (''start_loop'', [''loop_1'', ''s1'']),
      (''loop_1'', [''loop_2'']),
      (''loop_2'', [''start_loop'', ''accept'']),
      (''s1'', [''accept'']),
      (''accept'', [])]"


text \<open>The graph of the dead-loop scenario: a cycle that no branch leaves.\<close>

definition DeadLoopGraph :: StateToBranchedStates where
  "DeadLoopGraph =
     [(''start'', [''loop_a'']),
      (''loop_a'', [''loop_b'']),
      (''loop_b'', [''loop_a''])]"

text \<open>The objects \<open>createGraph\<close> allocates for the two graphs above.\<close>

definition ParseGraph_heap :: heap where
  "ParseGraph_heap =
     \<lparr>states =
        [\<lparr>m_name = ''start'', m_branches = [0, 1]\<rparr>,
         \<lparr>m_name = ''start_loop'', m_branches = [2, 3]\<rparr>,
         \<lparr>m_name = ''loop_1'', m_branches = [4]\<rparr>,
         \<lparr>m_name = ''loop_2'', m_branches = [5, 6]\<rparr>,
         \<lparr>m_name = ''s1'', m_branches = [7]\<rparr>,
         \<lparr>m_name = ''accept'', m_branches = []\<rparr>],
      branches =
        [\<lparr>m_nextState = 1\<rparr>, \<lparr>m_nextState = 4\<rparr>, \<lparr>m_nextState = 2\<rparr>,
         \<lparr>m_nextState = 4\<rparr>, \<lparr>m_nextState = 3\<rparr>, \<lparr>m_nextState = 1\<rparr>,
         \<lparr>m_nextState = 5\<rparr>, \<lparr>m_nextState = 5\<rparr>]\<rparr>"

definition DeadLoop_heap :: heap where
  "DeadLoop_heap =
     \<lparr>states =
        [\<lparr>m_name = ''start'', m_branches = [0]\<rparr>,
         \<lparr>m_name = ''loop_a'', m_branches = [1]\<rparr>,
         \<lparr>m_name = ''loop_b'', m_branches = [2]\<rparr>],
      branches = [\<lparr>m_nextState = 1\<rparr>, \<lparr>m_nextState = 2\<rparr>, \<lparr>m_nextState = 1\<rparr>]\<rparr>"

section \<open>Auxiliary notions for the proofs\<close>

text \<open>The two tests of \<open>followBranch\<close>, and the update it makes when both pass.\<close>

definition canFollow :: "heap \<Rightarrow> ParsePath \<Rightarrow> branch_ref \<Rightarrow> bool" where
  "canFollow h p b \<longleftrightarrow>
     m_nextState (branches h ! b) \<noteq> m_state (last p) \<and>
     \<not> list_ex (\<lambda>elem. m_state elem = m_state (last p) \<and> m_branch elem = Some b) p"

definition setBranch :: "ParsePath \<Rightarrow> branch_ref \<Rightarrow> ParsePath" where
  "setBranch p b = butlast p @ [(last p)\<lparr>m_branch := Some b\<rparr>]"

text \<open>Every name that some entry of a graph lists as a branched state.\<close>

definition successors :: "StateToBranchedStates \<Rightarrow> string set" where
  "successors graph = (\<Union>entry \<in> set graph. set (snd entry))"

text \<open>
  \<open>step h e t\<close>: the element \<open>e\<close> of a path has chosen a branch of its own state, and the
  branch leads to the state \<open>t\<close>, which is another state. \<open>chain h p t\<close>: every element of
  \<open>p\<close> is such a step to the state of the element after it, the last one to \<open>t\<close>.
  \<open>complete h p\<close>: \<open>p\<close> is a chain that ends in an element without a chosen branch, whose
  state has no branch, and no element occurs twice.
\<close>

definition step :: "heap \<Rightarrow> Element \<Rightarrow> state_ref \<Rightarrow> bool" where
  "step h e t \<longleftrightarrow>
     (case m_branch e of
        None \<Rightarrow> False
      | Some b \<Rightarrow>
          m_state e < length (states h) \<and> b \<in> set (m_branches (states h ! m_state e)) \<and>
          b < length (branches h) \<and> m_nextState (branches h ! b) = t \<and> t \<noteq> m_state e)"

fun chain :: "heap \<Rightarrow> ParsePath \<Rightarrow> state_ref \<Rightarrow> bool" where
  "chain h [] t = True"
| "chain h [e] t = step h e t"
| "chain h (e # e' # es) t = (step h e (m_state e') \<and> chain h (e' # es) t)"

definition complete :: "heap \<Rightarrow> ParsePath \<Rightarrow> bool" where
  "complete h p \<longleftrightarrow>
     p \<noteq> [] \<and> m_branch (last p) = None \<and> m_state (last p) < length (states h) \<and>
     m_branches (states h ! m_state (last p)) = [] \<and>
     chain h (butlast p) (m_state (last p)) \<and> distinct (butlast p)"

text \<open>A graph whose start state branches to itself and to a state without branches.\<close>

definition SelfLoopGraph :: StateToBranchedStates where
  "SelfLoopGraph = [(''start'', [''start'', ''accept'']), (''accept'', [])]"

definition SelfLoop_heap :: heap where
  "SelfLoop_heap =
     \<lparr>states =
        [\<lparr>m_name = ''start'', m_branches = [0, 1]\<rparr>, \<lparr>m_name = ''accept'', m_branches = []\<rparr>],
      branches = [\<lparr>m_nextState = 0\<rparr>, \<lparr>m_nextState = 1\<rparr>]\<rparr>"

text \<open>
  A heap is well formed when every branch listed by a state exists and leads to a state
  that exists. \<open>allElements h\<close> lists every pair of a state and one of its branches, as
  the path element that chooses this branch.
\<close>

definition wf_heap :: "heap \<Rightarrow> bool" where
  "wf_heap h \<longleftrightarrow>
     list_all (\<lambda>st. list_all (\<lambda>b. b < length (branches h) \<and>
                                 m_nextState (branches h ! b) < length (states h))
                      (m_branches st))
       (states h)"

definition allElements :: "heap \<Rightarrow> Element list" where
  "allElements h =
     concat (map (\<lambda>s. map (\<lambda>b. \<lparr>m_state = s, m_branch = Some b\<rparr>) (m_branches (states h ! s)))
               [0..<length (states h)])"

text \<open>No state lists the same branch object twice.\<close>

definition distinct_branches :: "heap \<Rightarrow> bool" where
  "distinct_branches h \<longleftrightarrow> list_all (\<lambda>st. distinct (m_branches st)) (states h)"

text \<open>Every name of \<open>namesToStates\<close> designates a state of the heap.\<close>

definition wf_names :: "(string \<rightharpoonup> state_ref) \<Rightarrow> heap \<Rightarrow> bool" where
  "wf_names m h \<longleftrightarrow> (\<forall>name s. m name = Some s \<longrightarrow> s < length (states h))"

text \<open>
  \<open>edges h\<close>: the pairs of a state and a state one of its branches leads to.
  \<open>sinkPath h s p\<close>: \<open>p\<close> starts at the state \<open>s\<close>, every element but the last has chosen a
  branch of its own state that leads to the state of the next element, and the last
  element has chosen no branch and its state has none. These are the paths an exhaustive
  enumeration from \<open>s\<close> to the states without branches yields.
\<close>

definition edges :: "heap \<Rightarrow> (state_ref \<times> state_ref) set" where
  "edges h =
     {(s, t). s < length (states h) \<and>
              (\<exists>b \<in> set (m_branches (states h ! s)). m_nextState (branches h ! b) = t)}"

fun sinkPath :: "heap \<Rightarrow> state_ref \<Rightarrow> ParsePath \<Rightarrow> bool" where
  "sinkPath h s [] = False"
| "sinkPath h s [e] =
     (m_state e = s \<and> m_branch e = None \<and> s < length (states h) \<and>
      m_branches (states h ! s) = [])"
| "sinkPath h s (e # e' # es) =
     (m_state e = s \<and> s < length (states h) \<and>
      (case m_branch e of
         None \<Rightarrow> False
       | Some b \<Rightarrow> b \<in> set (m_branches (states h ! s)) \<and>
                   sinkPath h (m_nextState (branches h ! b)) (e' # es)))"

text \<open>An acyclic graph: two ways from start to accept.\<close>

definition DiamondGraph :: StateToBranchedStates where
  "DiamondGraph =
     [(''start'', [''a'', ''b'']), (''a'', [''accept'']), (''b'', [''accept'']), (''accept'', [])]"

definition Diamond_heap :: heap where
  "Diamond_heap =
     \<lparr>states =
        [\<lparr>m_name = ''start'', m_branches = [0, 1]\<rparr>, \<lparr>m_name = ''a'', m_branches = [2]\<rparr>,
         \<lparr>m_name = ''b'', m_branches = [3]\<rparr>, \<lparr>m_name = ''accept'', m_branches = []\<rparr>],
      branches =
        [\<lparr>m_nextState = 1\<rparr>, \<lparr>m_nextState = 2\<rparr>, \<lparr>m_nextState = 3\<rparr>, \<lparr>m_nextState = 3\<rparr>]\<rparr>"

type_synonym NameGraph = "string \<Rightarrow> string list"
type_synonym NameElement = "string \<times> nat option"
type_synonym NamePath = "NameElement list"
type_synonym name_search = "NamePath list \<times> NamePath list \<times> NamePath"

text \<open>The position of the first occurrence of an element in a list.\<close>

fun indexOf :: "'a list \<Rightarrow> 'a \<Rightarrow> nat" where
  "indexOf [] x = 0"
| "indexOf (y # ys) x = (if x = y then 0 else Suc (indexOf ys x))"

text \<open>
  A path element seen from outside the heap: the name of its state, and the position of
  the chosen branch in the branch list of the state.
\<close>

definition nameOf :: "heap \<Rightarrow> state_ref \<Rightarrow> string" where
  "nameOf h s = m_name (states h ! s)"

definition absElement :: "heap \<Rightarrow> Element \<Rightarrow> NameElement" where
  "absElement h e =
     (nameOf h (m_state e),
      map_option (indexOf (m_branches (states h ! m_state e))) (m_branch e))"

text \<open>
  The search written on names alone: a graph maps a name to the names a state branches
  to, a branch is a position in that list. It is used to show that the result of the
  search on a heap does not depend on the addresses \<open>createGraph\<close> hands out, hence not
  on the order in which the map yields its entries.
\<close>

definition nameCanFollow :: "NameGraph \<Rightarrow> NamePath \<Rightarrow> nat \<Rightarrow> bool" where
  "nameCanFollow G p i \<longleftrightarrow>
     G (fst (last p)) ! i \<noteq> fst (last p) \<and>
     \<not> list_ex (\<lambda>elem. fst elem = fst (last p) \<and> snd elem = Some i) p"

fun nameFindPathsImpl :: "nat \<Rightarrow> NameGraph \<Rightarrow> name_search \<Rightarrow> string \<Rightarrow> name_search option"
and nameFollowBranches ::
  "nat \<Rightarrow> NameGraph \<Rightarrow> nat list \<Rightarrow> name_search \<Rightarrow> bool \<Rightarrow> (name_search \<times> bool) option" where
  "nameFindPathsImpl 0 G sr name = None"
| "nameFindPathsImpl (Suc n) G (ps, ce, cp) name =
     (if G name = [] then Some (ps @ [cp @ [(name, None)]], ce, cp)
      else
        (case nameFollowBranches n G [0..<length (G name)] (ps, ce, cp @ [(name, None)]) False of
           None \<Rightarrow> None
         | Some ((ps', ce', cp'), followed) \<Rightarrow>
             Some (ps', if followed then ce' else ce' @ [cp'], butlast cp')))"
| "nameFollowBranches n G [] sr followed = Some (sr, followed)"
| "nameFollowBranches n G (i # rest) (ps, ce, cp) followed =
     (if nameCanFollow G cp i then
        (case nameFindPathsImpl n G (ps, ce, butlast cp @ [(fst (last cp), Some i)])
                (G (fst (last cp)) ! i) of
           None \<Rightarrow> None
         | Some sr \<Rightarrow> nameFollowBranches n G rest sr True)
      else nameFollowBranches n G rest (ps, ce, cp) followed)"

text \<open>
  \<open>validElement h e\<close>: the state of \<open>e\<close> is on the heap and its chosen branch, if any, is
  one of its state's. \<open>represents h G\<close>: the heap is well formed, distinct states have
  distinct names, and the branches of each state lead, in order, to the states \<open>G\<close> names.
\<close>

definition validElement :: "heap \<Rightarrow> Element \<Rightarrow> bool" where
  "validElement h e \<longleftrightarrow>
     m_state e < length (states h) \<and>
     (case m_branch e of None \<Rightarrow> True
      | Some b \<Rightarrow> b \<in> set (m_branches (states h ! m_state e)))"

definition represents :: "heap \<Rightarrow> NameGraph \<Rightarrow> bool" where
  "represents h G \<longleftrightarrow>
     wf_heap h \<and> distinct_branches h \<and>
     (\<forall>i < length (states h). \<forall>j < length (states h). nameOf h i = nameOf h j \<longrightarrow> i = j) \<and>
     (\<forall>i < length (states h).
        G (nameOf h i) = map (\<lambda>b. nameOf h (m_nextState (branches h ! b)))
                           (m_branches (states h ! i)))"

definition absSearch :: "heap \<Rightarrow> search \<Rightarrow> name_search" where
  "absSearch h sr =
     (case sr of (ps, ce, cp) \<Rightarrow>
        (map (map (absElement h)) ps, map (map (absElement h)) ce, map (absElement h) cp))"

text \<open>The graph on names that an adjacency specification denotes.\<close>

definition nameGraph :: "StateToBranchedStates \<Rightarrow> NameGraph" where
  "nameGraph graph name = (case map_of graph name of None \<Rightarrow> [] | Some branched \<Rightarrow> branched)"

text \<open>The names of the states the branches of a state lead to, in order.\<close>

definition targetNames :: "heap \<Rightarrow> state_ref \<Rightarrow> string list" where
  "targetNames h s =
     map (\<lambda>b. nameOf h (m_nextState (branches h ! b))) (m_branches (states h ! s))"

text \<open>\<open>namesToStates\<close> maps each name to the state of that name, and every state is so mapped.\<close>

definition names_inv :: "(string \<rightharpoonup> state_ref) \<Rightarrow> heap \<Rightarrow> bool" where
  "names_inv m h \<longleftrightarrow>
     (\<forall>name s. m name = Some s \<longrightarrow> s < length (states h) \<and> nameOf h s = name) \<and>
     (\<forall>s < length (states h). m (nameOf h s) = Some s)"

section \<open>One step of the search\<close>

lemma followBranch_Inr:
  "followBranch h p b = Inr (followed, p') \<longleftrightarrow>
     p \<noteq> [] \<and> b < length (branches h) \<and> followed = canFollow h p b \<and>
     p' = (if followed then setBranch p b else p)"
  by (auto simp: followBranch_def getBranch_def canFollow_def setBranch_def split: option.splits)

lemma followBranch_Inl:
  "followBranch h p b = Inl f \<longleftrightarrow>
     (p = [] \<and> f = AssertionFailed) \<or>
     (p \<noteq> [] \<and> \<not> b < length (branches h) \<and> f = InvalidPointer)"
  by (auto simp: followBranch_def getBranch_def split: option.splits)

lemma findPathsImpl_Suc_Inr:
  "findPathsImpl (Suc n) h (ps, ce, cp) s = Inr r \<longleftrightarrow>
     s < length (states h) \<and>
     (if m_branches (states h ! s) = [] then r = (ps @ [pushState cp s], ce, cp)
      else (\<exists>ps2 ce2 cp2 f.
              followBranches n h (m_branches (states h ! s)) (ps, ce, pushState cp s) False
                = Inr ((ps2, ce2, cp2), f) \<and>
              cp2 \<noteq> [] \<and> r = (ps2, if f then ce2 else ce2 @ [cp2], butlast cp2)))"
  apply (simp add: getState_def popState_def pushState_def split: sum.splits prod.splits)
  apply blast
  done

lemma findPathsImpl_Suc_leaf:
  "s < length (states h) \<Longrightarrow> m_branches (states h ! s) = [] \<Longrightarrow>
   findPathsImpl (Suc n) h (ps, ce, cp) s = Inr (ps @ [pushState cp s], ce, cp)"
  by (simp add: getState_def popState_def pushState_def)

lemma findPathsImpl_Suc_node:
  "s < length (states h) \<Longrightarrow> m_branches (states h ! s) \<noteq> [] \<Longrightarrow>
   followBranches n h (m_branches (states h ! s)) (ps, ce, pushState cp s) False
     = Inr ((ps2, ce2, cp2), f) \<Longrightarrow> cp2 \<noteq> [] \<Longrightarrow>
   findPathsImpl (Suc n) h (ps, ce, cp) s
     = Inr (ps2, if f then ce2 else ce2 @ [cp2], butlast cp2)"
  by (simp add: getState_def popState_def)

lemma followBranches_Cons_Inr:
  "followBranches n h (b # bs) (ps, ce, cp) f = Inr r \<longleftrightarrow>
     cp \<noteq> [] \<and> b < length (branches h) \<and>
     (if canFollow h cp b
      then (\<exists>sr. findPathsImpl n h (ps, ce, setBranch cp b) (m_nextState (branches h ! b)) = Inr sr
                 \<and> followBranches n h bs sr True = Inr r)
      else followBranches n h bs (ps, ce, cp) f = Inr r)"
  by (cases "followBranch h cp b")
     (auto simp: followBranch_Inr followBranch_Inl getBranch_def simp del: findPathsImpl.simps
           split: sum.splits)

lemma findPathsImpl_0: "findPathsImpl 0 h sr s = Inl OutOfFuel"
  by simp

lemma followBranches_Nil: "followBranches n h [] sr f = Inr (sr, f)"
  by simp

lemmas search_eval =
  findPathsImpl.simps followBranches.simps findPaths_def getState_def getBranch_def
  pushState_def popState_def followBranch_def

declare findPathsImpl.simps [simp del] followBranches.simps [simp del]
declare findPathsImpl_0 [simp] followBranches_Nil [simp]

lemma setBranch_simps [simp]:
  "setBranch p b \<noteq> []"
  "butlast (setBranch p b) = butlast p"
  "m_state (last (setBranch p b)) = m_state (last p)"
  "last (setBranch p b) = (last p)\<lparr>m_branch := Some b\<rparr>"
  by (simp_all add: setBranch_def)

section \<open>The search restores the current path\<close>

lemma followBranches_restore:
  assumes IH: "\<And>ps ce cp s ps' ce' cp'.
     findPathsImpl n h (ps, ce, cp) s = Inr (ps', ce', cp') \<Longrightarrow> cp' = cp"
  shows "followBranches n h bs (ps, ce, cp) f = Inr ((ps', ce', cp'), f') \<Longrightarrow> cp \<noteq> [] \<Longrightarrow>
     cp' \<noteq> [] \<and> butlast cp' = butlast cp \<and> m_state (last cp') = m_state (last cp)"
proof (induction bs arbitrary: ps ce cp f)
  case Nil
  then show ?case by simp
next
  case (Cons b bs)
  show ?case
  proof (cases "canFollow h cp b")
    case True
    with Cons.prems obtain ps2 ce2 cp2 where
      v: "findPathsImpl n h (ps, ce, setBranch cp b) (m_nextState (branches h ! b))
            = Inr (ps2, ce2, cp2)"
      and l: "followBranches n h bs (ps2, ce2, cp2) True = Inr ((ps', ce', cp'), f')"
      by (auto simp: followBranches_Cons_Inr)
    from IH [OF v] have "cp2 = setBranch cp b" .
    with Cons.IH [OF l] Cons.prems(2) show ?thesis by simp
  next
    case False
    with Cons.prems have "followBranches n h bs (ps, ce, cp) f = Inr ((ps', ce', cp'), f')"
      by (simp add: followBranches_Cons_Inr)
    from Cons.IH [OF this] Cons.prems(2) show ?thesis by simp
  qed
qed

lemma findPathsImpl_restore:
  "findPathsImpl n h (ps, ce, cp) s = Inr (ps', ce', cp') \<Longrightarrow> cp' = cp"
proof (induction n arbitrary: ps ce cp s ps' ce' cp')
  case 0
  then show ?case by simp
next
  case (Suc n)
  show ?case
  proof (cases "m_branches (states h ! s) = []")
    case True
    with Suc.prems show ?thesis by (simp add: findPathsImpl_Suc_Inr)
  next
    case False
    with Suc.prems obtain ps2 ce2 cp2 f where
      l: "followBranches n h (m_branches (states h ! s)) (ps, ce, pushState cp s) False
            = Inr ((ps2, ce2, cp2), f)"
      and c: "cp' = butlast cp2"
      by (auto simp: findPathsImpl_Suc_Inr)
    have "pushState cp s \<noteq> []" by (simp add: pushState_def)
    from followBranches_restore [OF Suc.IH l this] c show ?thesis
      by (simp add: pushState_def)
  qed
qed

section \<open>A deeper bound on the recursion changes no result\<close>

lemma followBranches_Suc:
  assumes IH: "\<And>sr s r. findPathsImpl n h sr s = Inr r \<Longrightarrow> findPathsImpl (Suc n) h sr s = Inr r"
  shows "followBranches n h bs sr f = Inr r \<Longrightarrow> followBranches (Suc n) h bs sr f = Inr r"
proof (induction bs arbitrary: sr f)
  case Nil
  then show ?case by simp
next
  case (Cons b bs)
  obtain ps ce cp where sr: "sr = (ps, ce, cp)" by (cases sr) auto
  from Cons.prems show ?case
    unfolding sr followBranches_Cons_Inr
    by (auto dest: IH Cons.IH split: if_splits)
qed

lemma findPathsImpl_Suc:
  "findPathsImpl n h sr s = Inr r \<Longrightarrow> findPathsImpl (Suc n) h sr s = Inr r"
proof (induction n arbitrary: sr s r)
  case 0
  then show ?case by simp
next
  case (Suc n)
  obtain ps ce cp where sr: "sr = (ps, ce, cp)" by (cases sr) auto
  show ?case
  proof (cases "m_branches (states h ! s) = []")
    case True
    with Suc.prems show ?thesis
      by (simp add: sr findPathsImpl_Suc_Inr)
  next
    case False
    with Suc.prems obtain ps2 ce2 cp2 f where
      l: "followBranches n h (m_branches (states h ! s)) (ps, ce, pushState cp s) False
            = Inr ((ps2, ce2, cp2), f)"
      and c: "cp2 \<noteq> []" "r = (ps2, if f then ce2 else ce2 @ [cp2], butlast cp2)"
      and s: "s < length (states h)"
      by (auto simp: sr findPathsImpl_Suc_Inr)
    have "followBranches (Suc n) h (m_branches (states h ! s)) (ps, ce, pushState cp s) False
            = Inr ((ps2, ce2, cp2), f)"
      by (rule followBranches_Suc [OF _ l]) (erule Suc.IH)
    with s False c(1) show ?thesis
      unfolding sr c(2) by (simp add: findPathsImpl_Suc_node)
  qed
qed

lemma findPathsImpl_fuel_mono:
  "findPathsImpl n h sr state = Inr sr' \<Longrightarrow> n \<le> m \<Longrightarrow> findPathsImpl m h sr state = Inr sr'"
  by (induction m) (auto simp: le_Suc_eq findPathsImpl_Suc)

lemma findPaths_fuel_mono:
  "findPaths n h paths state = Inr r \<Longrightarrow> n \<le> m \<Longrightarrow> findPaths m h paths state = Inr r"
  by (auto simp: findPaths_def split: sum.splits prod.splits dest: findPathsImpl_fuel_mono)

section \<open>The paths the search finds\<close>

lemma chain_snoc: "chain h (p @ [e]) t \<longleftrightarrow> chain h p (m_state e) \<and> step h e t"
  by (induction h p t rule: chain.induct) auto

lemma chain_nth:
  "chain h p t \<Longrightarrow> i < length p \<Longrightarrow>
   step h (p ! i) (if Suc i < length p then m_state (p ! Suc i) else t)"
proof (induction h p t arbitrary: i rule: chain.induct)
  case (1 h t)
  then show ?case by simp
next
  case (2 h e t)
  then show ?case by simp
next
  case (3 h e e' es t)
  show ?case
  proof (cases i)
    case 0
    with "3.prems" show ?thesis by simp
  next
    case (Suc j)
    from "3.prems" have "chain h (e' # es) t" "j < length (e' # es)" by (simp_all add: Suc)
    from "3.IH" [OF this] show ?thesis by (auto simp: Suc split: if_splits)
  qed
qed

lemma step_Some: "step h e t \<Longrightarrow> m_branch e \<noteq> None"
  by (auto simp: step_def split: option.splits)

lemma chain_Some: "chain h p t \<Longrightarrow> e \<in> set p \<Longrightarrow> m_branch e \<noteq> None"
  by (induction h p t rule: chain.induct) (auto dest: step_Some)

lemma complete_distinct: "complete h p \<Longrightarrow> distinct p"
proof -
  assume c: "complete h p"
  then have p: "p = butlast p @ [last p]" by (simp add: complete_def)
  from c have "last p \<notin> set (butlast p)"
    by (auto simp: complete_def dest: chain_Some)
  with c p show ?thesis
    by (metis complete_def distinct.simps(2) distinct1_rotate rotate1.simps(2))
qed

lemma setBranch_chain:
  assumes "cp \<noteq> []" "chain h (butlast cp) (m_state (last cp))" "distinct (butlast cp)"
    "m_state (last cp) < length (states h)" "b \<in> set (m_branches (states h ! m_state (last cp)))"
    "b < length (branches h)" "canFollow h cp b"
  shows "chain h (setBranch cp b) (m_nextState (branches h ! b)) \<and> distinct (setBranch cp b)"
proof -
  let ?e = "(last cp)\<lparr>m_branch := Some b\<rparr>"
  from assms have "step h ?e (m_nextState (branches h ! b))"
    by (simp add: step_def canFollow_def)
  moreover have "?e \<notin> set (butlast cp)"
  proof
    assume "?e \<in> set (butlast cp)"
    then have "?e \<in> set cp" by (rule in_set_butlastD)
    with assms(7) show False
      by (auto simp: canFollow_def list_ex_iff)
  qed
  ultimately show ?thesis using assms(2,3)
    by (simp add: setBranch_def chain_snoc)
qed

lemma followBranches_complete:
  assumes IH: "\<And>ps ce cp s ps' ce' cp'.
     findPathsImpl n h (ps, ce, cp) s = Inr (ps', ce', cp') \<Longrightarrow> chain h cp s \<Longrightarrow> distinct cp \<Longrightarrow>
     \<exists>new. ps' = ps @ new \<and> (\<forall>p \<in> set new. complete h p)"
  shows "followBranches n h bs (ps, ce, cp) f = Inr ((ps', ce', cp'), f') \<Longrightarrow>
     chain h (butlast cp) (m_state (last cp)) \<Longrightarrow> distinct (butlast cp) \<Longrightarrow>
     m_state (last cp) < length (states h) \<Longrightarrow>
     set bs \<subseteq> set (m_branches (states h ! m_state (last cp))) \<Longrightarrow>
     \<exists>new. ps' = ps @ new \<and> (\<forall>p \<in> set new. complete h p)"
proof (induction bs arbitrary: ps ce cp f)
  case Nil
  then show ?case by simp
next
  case (Cons b bs)
  from Cons.prems(1) have ne: "cp \<noteq> []" and b: "b < length (branches h)"
    by (simp_all add: followBranches_Cons_Inr)
  show ?case
  proof (cases "canFollow h cp b")
    case True
    with Cons.prems(1) obtain ps2 ce2 cp2 where
      v: "findPathsImpl n h (ps, ce, setBranch cp b) (m_nextState (branches h ! b))
            = Inr (ps2, ce2, cp2)"
      and l: "followBranches n h bs (ps2, ce2, cp2) True = Inr ((ps', ce', cp'), f')"
      by (auto simp: followBranches_Cons_Inr)
    from findPathsImpl_restore [OF v] have cp2: "cp2 = setBranch cp b" .
    from Cons.prems True ne b
    have "chain h (setBranch cp b) (m_nextState (branches h ! b)) \<and> distinct (setBranch cp b)"
      by (intro setBranch_chain) auto
    with IH [OF v] obtain new1 where new1: "ps2 = ps @ new1" "\<forall>p \<in> set new1. complete h p"
      by blast
    from Cons.prems have "\<exists>new. ps' = ps2 @ new \<and> (\<forall>p \<in> set new. complete h p)"
      by (intro Cons.IH [OF l]) (simp_all add: cp2)
    then obtain new2 where "ps' = ps2 @ new2" "\<forall>p \<in> set new2. complete h p" by blast
    with new1 have "ps' = ps @ (new1 @ new2) \<and> (\<forall>p \<in> set (new1 @ new2). complete h p)"
      by auto
    then show ?thesis by blast
  next
    case False
    with Cons.prems(1) have "followBranches n h bs (ps, ce, cp) f = Inr ((ps', ce', cp'), f')"
      by (simp add: followBranches_Cons_Inr)
    from Cons.IH [OF this] Cons.prems show ?thesis by simp
  qed
qed

lemma findPathsImpl_complete:
  "findPathsImpl n h (ps, ce, cp) s = Inr (ps', ce', cp') \<Longrightarrow> chain h cp s \<Longrightarrow> distinct cp \<Longrightarrow>
   \<exists>new. ps' = ps @ new \<and> (\<forall>p \<in> set new. complete h p)"
proof (induction n arbitrary: ps ce cp s ps' ce' cp')
  case 0
  then show ?case by simp
next
  case (Suc n)
  from Suc.prems(1) have s: "s < length (states h)" by (simp add: findPathsImpl_Suc_Inr)
  show ?case
  proof (cases "m_branches (states h ! s) = []")
    case True
    with Suc.prems(1) have "ps' = ps @ [pushState cp s]"
      by (simp add: findPathsImpl_Suc_Inr)
    moreover from True s Suc.prems(2,3) have "complete h (pushState cp s)"
      by (simp add: complete_def pushState_def)
    ultimately show ?thesis by simp
  next
    case False
    with Suc.prems(1) obtain ps2 ce2 cp2 f where
      l: "followBranches n h (m_branches (states h ! s)) (ps, ce, pushState cp s) False
            = Inr ((ps2, ce2, cp2), f)"
      and c: "ps' = ps2"
      by (auto simp: findPathsImpl_Suc_Inr)
    show ?thesis
      unfolding c
    proof (rule followBranches_complete [OF _ l])
      show "\<exists>new. ps' = ps @ new \<and> (\<forall>p \<in> set new. complete h p)"
        if "findPathsImpl n h (ps, ce, cp) s = Inr (ps', ce', cp')" "chain h cp s" "distinct cp"
        for ps ce cp s ps' ce' cp'
        using that by (rule Suc.IH)
    qed (use Suc.prems(2,3) s in \<open>simp_all add: pushState_def\<close>)
  qed
qed

lemma findPaths_complete:
  "findPaths n h paths0 s = Inr (paths, cerr) \<Longrightarrow>
   \<exists>new. paths = paths0 @ new \<and> (\<forall>p \<in> set new. complete h p)"
proof -
  assume "findPaths n h paths0 s = Inr (paths, cerr)"
  then obtain cp where "findPathsImpl n h (paths0, [], []) s = Inr (paths, cerr, cp)"
    by (auto simp: findPaths_def split: sum.splits)
  from findPathsImpl_complete [OF this] show ?thesis by simp
qed

lemma complete_nth:
  assumes "complete h p" "Suc i < length p"
  shows "step h (p ! i) (m_state (p ! Suc i))"
proof -
  from assms have c: "chain h (butlast p) (m_state (last p))" and i: "i < length (butlast p)"
    and ne: "p \<noteq> []"
    by (auto simp: complete_def)
  have "(if Suc i < length (butlast p) then m_state (butlast p ! Suc i) else m_state (last p))
        = m_state (p ! Suc i)"
  proof (cases "Suc i < length (butlast p)")
    case True
    then show ?thesis by (simp add: nth_butlast)
  next
    case False
    with assms(2) have "Suc i = length p - 1" by simp
    with False ne show ?thesis by (simp add: last_conv_nth)
  qed
  with chain_nth [OF c i] i show ?thesis by (simp add: nth_butlast)
qed

lemma complete_well_formed:
  assumes "complete h p"
  shows "p \<noteq> [] \<and> m_branch (last p) = None \<and> m_state (last p) < length (states h) \<and>
         m_branches (states h ! m_state (last p)) = [] \<and>
         (\<forall>i. Suc i < length p \<longrightarrow>
            (\<exists>b. m_branch (p ! i) = Some b \<and>
                 b \<in> set (m_branches (states h ! m_state (p ! i))) \<and>
                 b < length (branches h) \<and>
                 m_nextState (branches h ! b) = m_state (p ! Suc i)))"
proof -
  have "\<exists>b. m_branch (p ! i) = Some b \<and>
                 b \<in> set (m_branches (states h ! m_state (p ! i))) \<and>
                 b < length (branches h) \<and>
                 m_nextState (branches h ! b) = m_state (p ! Suc i)" if "Suc i < length p" for i
    using complete_nth [OF assms that] by (auto simp: step_def split: option.splits)
  with assms show ?thesis by (simp add: complete_def)
qed

lemma complete_no_self_loop:
  assumes "complete h p" "Suc i < length p"
  shows "m_state (p ! Suc i) \<noteq> m_state (p ! i) \<and>
         (\<forall>b. m_branch (p ! i) = Some b \<longrightarrow> m_nextState (branches h ! b) \<noteq> m_state (p ! i))"
  using complete_nth [OF assms] by (auto simp: step_def split: option.splits)

lemma distinct_pairs:
  "distinct (map (\<lambda>e. (m_state e, m_branch e)) (p :: ParsePath)) \<longleftrightarrow> distinct p"
  by (auto simp: distinct_map intro!: inj_onI)

lemma followBranch_rejects_taken:
  "p \<noteq> [] \<Longrightarrow> b < length (branches h) \<Longrightarrow>
   \<exists>e \<in> set p. m_state e = m_state (last p) \<and> m_branch e = Some b \<Longrightarrow>
   followBranch h p b = Inr (False, p)"
  by (auto simp: followBranch_Inr canFollow_def list_ex_iff)

lemma followBranch_rejects_self:
  "p \<noteq> [] \<Longrightarrow> b < length (branches h) \<Longrightarrow> m_nextState (branches h ! b) = m_state (last p) \<Longrightarrow>
   followBranch h p b = Inr (False, p)"
  by (auto simp: followBranch_Inr canFollow_def)

section \<open>The search returns\<close>

lemma wf_heap_iff:
  "wf_heap h \<longleftrightarrow>
     (\<forall>st \<in> set (states h). \<forall>b \<in> set (m_branches st).
        b < length (branches h) \<and> m_nextState (branches h ! b) < length (states h))"
  by (simp add: wf_heap_def list_all_iff)

lemma distinct_branches_iff:
  "distinct_branches h \<longleftrightarrow> (\<forall>st \<in> set (states h). distinct (m_branches st))"
  by (simp add: distinct_branches_def list_all_iff)

lemma wf_heapD:
  "wf_heap h \<Longrightarrow> s < length (states h) \<Longrightarrow> b \<in> set (m_branches (states h ! s)) \<Longrightarrow>
   b < length (branches h) \<and> m_nextState (branches h ! b) < length (states h)"
  by (auto simp: wf_heap_def list_all_iff)

lemma step_allElements: "step h e t \<Longrightarrow> e \<in> set (allElements h)"
  by (cases e) (auto simp: step_def allElements_def split: option.splits)

lemma chain_allElements: "chain h p t \<Longrightarrow> set p \<subseteq> set (allElements h)"
  by (induction h p t rule: chain.induct) (auto dest: step_allElements)

lemma chain_length:
  assumes "chain h p t" "distinct p"
  shows "length p \<le> length (allElements h)"
proof -
  from assms(2) have "length p = card (set p)" by (simp add: distinct_card)
  also from chain_allElements [OF assms(1)] have "\<dots> \<le> card (set (allElements h))"
    by (simp add: card_mono)
  also have "\<dots> \<le> length (allElements h)" by (rule card_length)
  finally show ?thesis .
qed

lemma followBranches_returns:
  assumes IH: "\<And>ps ce cp s. chain h cp s \<Longrightarrow> distinct cp \<Longrightarrow> s < length (states h) \<Longrightarrow>
      length (allElements h) < n + length cp \<Longrightarrow> \<exists>r. findPathsImpl n h (ps, ce, cp) s = Inr r"
    and wf: "wf_heap h"
  shows "cp \<noteq> [] \<Longrightarrow> chain h (butlast cp) (m_state (last cp)) \<Longrightarrow> distinct (butlast cp) \<Longrightarrow>
     m_state (last cp) < length (states h) \<Longrightarrow>
     set bs \<subseteq> set (m_branches (states h ! m_state (last cp))) \<Longrightarrow>
     length (allElements h) < n + length cp \<Longrightarrow>
     \<exists>r. followBranches n h bs (ps, ce, cp) f = Inr r"
proof (induction bs arbitrary: ps ce cp f)
  case Nil
  then show ?case by simp
next
  case (Cons b bs)
  from Cons.prems(5) have b_in: "b \<in> set (m_branches (states h ! m_state (last cp)))" by simp
  from wf_heapD [OF wf Cons.prems(4) b_in]
  have b: "b < length (branches h)" and t: "m_nextState (branches h ! b) < length (states h)"
    by simp_all
  show ?case
  proof (cases "canFollow h cp b")
    case True
    let ?cp = "setBranch cp b"
    from Cons.prems True b b_in
    have c: "chain h ?cp (m_nextState (branches h ! b))" "distinct ?cp"
      using setBranch_chain [of cp h b] by simp_all
    from Cons.prems(1,6) have "length (allElements h) < n + length ?cp"
      by (simp add: setBranch_def)
    from IH [OF c t this] obtain ps2 ce2 cp2 where
      v: "findPathsImpl n h (ps, ce, ?cp) (m_nextState (branches h ! b)) = Inr (ps2, ce2, cp2)"
      by (metis prod_cases3)
    from findPathsImpl_restore [OF v] have cp2: "cp2 = ?cp" .
    from Cons.prems have "\<exists>r. followBranches n h bs (ps2, ce2, ?cp) True = Inr r"
      by (intro Cons.IH) (simp_all add: setBranch_def)
    with v cp2 True b Cons.prems(1) show ?thesis
      by (auto simp: followBranches_Cons_Inr)
  next
    case False
    from Cons.prems have "\<exists>r. followBranches n h bs (ps, ce, cp) f = Inr r"
      by (intro Cons.IH) simp_all
    with False b Cons.prems(1) show ?thesis
      by (simp add: followBranches_Cons_Inr)
  qed
qed

lemma findPathsImpl_returns:
  assumes wf: "wf_heap h"
  shows "chain h cp s \<Longrightarrow> distinct cp \<Longrightarrow> s < length (states h) \<Longrightarrow>
     length (allElements h) < n + length cp \<Longrightarrow> \<exists>r. findPathsImpl n h (ps, ce, cp) s = Inr r"
proof (induction n arbitrary: ps ce cp s)
  case 0
  from chain_length [OF "0.prems"(1,2)] "0.prems"(4) show ?case by simp
next
  case (Suc n)
  show ?case
  proof (cases "m_branches (states h ! s) = []")
    case True
    with Suc.prems(3) show ?thesis by (simp add: findPathsImpl_Suc_leaf)
  next
    case False
    have "\<exists>r. followBranches n h (m_branches (states h ! s)) (ps, ce, pushState cp s) False = Inr r"
    proof (rule followBranches_returns [OF _ wf])
      show "\<exists>r. findPathsImpl n h (ps, ce, cp) s = Inr r"
        if "chain h cp s" "distinct cp" "s < length (states h)"
           "length (allElements h) < n + length cp"
        for ps ce cp s
        using that by (rule Suc.IH)
    qed (use Suc.prems in \<open>simp_all add: pushState_def\<close>)
    then obtain ps2 ce2 cp2 f where
      l: "followBranches n h (m_branches (states h ! s)) (ps, ce, pushState cp s) False
            = Inr ((ps2, ce2, cp2), f)"
      by (metis prod_cases3 surj_pair)
    have "pushState cp s \<noteq> []" by (simp add: pushState_def)
    from followBranches_restore [OF findPathsImpl_restore l this] have "cp2 \<noteq> []"
      by simp
    from findPathsImpl_Suc_node [OF Suc.prems(3) False l this] show ?thesis by blast
  qed
qed

lemma findPaths_returns:
  assumes "wf_heap h" "state < length (states h)" "length (allElements h) < n"
  shows "\<exists>paths' cerr. findPaths n h paths state = Inr (paths', cerr)"
proof -
  from assms(2,3) findPathsImpl_returns [OF assms(1), of "[]" state n paths "[]"]
  obtain paths' cerr cp where "findPathsImpl n h (paths, [], []) state = Inr (paths', cerr, cp)"
    by (auto simp: )
  then show ?thesis by (simp add: findPaths_def)
qed

section \<open>Acyclic graphs\<close>

lemma sinkPath_leaf:
  "s < length (states h) \<Longrightarrow> m_branches (states h ! s) = [] \<Longrightarrow>
   sinkPath h s q \<longleftrightarrow> q = [\<lparr>m_state = s, m_branch = None\<rparr>]"
  by (cases "(h, s, q)" rule: sinkPath.cases) (auto split: option.splits)

lemma sinkPath_node:
  "s < length (states h) \<Longrightarrow> m_branches (states h ! s) \<noteq> [] \<Longrightarrow>
   sinkPath h s q \<longleftrightarrow>
     (\<exists>b q'. q = \<lparr>m_state = s, m_branch = Some b\<rparr> # q' \<and> b \<in> set (m_branches (states h ! s)) \<and>
             sinkPath h (m_nextState (branches h ! b)) q')"
proof (cases "(h, s, q)" rule: sinkPath.cases)
  case (1 h s)
  then show ?thesis by simp
next
  case (2 h' s' e)
  assume "s < length (states h)" "m_branches (states h ! s) \<noteq> []"
  with 2 show ?thesis by auto
next
  case (3 h' s' e e' es)
  assume "s < length (states h)" "m_branches (states h ! s) \<noteq> []"
  with 3 show ?thesis by (cases e) (auto split: option.splits)
qed

lemma last_setBranch_eq:
  "last (setBranch cp b) = \<lparr>m_state = m_state (last cp), m_branch = Some b\<rparr>"
  by (cases "last cp") simp

lemma setBranch_append:
  "setBranch cp b @ q = butlast cp @ \<lparr>m_state = m_state (last cp), m_branch = Some b\<rparr> # q"
  using last_setBranch_eq [of cp b] by (simp add: setBranch_def)

lemma sinkPaths_leaf:
  "s < length (states h) \<Longrightarrow> m_branches (states h ! s) = [] \<Longrightarrow>
   (@) cp ` {q. sinkPath h s q} = {pushState cp s}"
  by (auto simp: sinkPath_leaf pushState_def)

lemma sinkPaths_node:
  assumes "s < length (states h)" "m_branches (states h ! s) \<noteq> []"
  shows "(@) cp ` {q. sinkPath h s q} =
     (\<Union>b \<in> set (m_branches (states h ! s)).
        (\<lambda>q. cp @ \<lparr>m_state = s, m_branch = Some b\<rparr> # q) `
          {q. sinkPath h (m_nextState (branches h ! b)) q})"
  by (auto simp: sinkPath_node [OF assms] image_iff)

lemma edges_acyclic_neq: "acyclic r \<Longrightarrow> (a, b) \<in> r\<^sup>+ \<Longrightarrow> a \<noteq> b"
  by (auto simp: acyclic_def)

lemma dag_canFollow:
  assumes acyc: "acyclic (edges h)"
    and ne: "cp \<noteq> []"
    and reach: "\<forall>e \<in> set (butlast cp). (m_state e, m_state (last cp)) \<in> (edges h)\<^sup>+"
    and s: "m_state (last cp) < length (states h)"
    and b: "b \<in> set (m_branches (states h ! m_state (last cp)))"
    and nb: "m_branch (last cp) \<noteq> Some b"
  shows "canFollow h cp b"
proof -
  let ?s = "m_state (last cp)"
  from s b have "(?s, m_nextState (branches h ! b)) \<in> edges h"
    by (auto simp: edges_def)
  with acyc have t: "m_nextState (branches h ! b) \<noteq> ?s"
    by (metis edges_acyclic_neq r_into_trancl')
  have "\<not> (m_state e = ?s \<and> m_branch e = Some b)" if "e \<in> set cp" for e
  proof -
    from ne have "cp = butlast cp @ [last cp]" by simp
    with that have "e \<in> set (butlast cp) \<or> e = last cp"
      by (metis Un_iff empty_iff insert_iff list.set(1) list.simps(15) set_append)
    then show ?thesis
    proof
      assume "e \<in> set (butlast cp)"
      with reach acyc have "m_state e \<noteq> ?s" by (metis edges_acyclic_neq)
      then show ?thesis by simp
    next
      assume "e = last cp"
      with nb show ?thesis by simp
    qed
  qed
  with t show ?thesis by (auto simp: canFollow_def list_ex_iff)
qed

lemma followBranches_dag:
  assumes IH: "\<And>ps ce cp s ps' ce' cp'.
      findPathsImpl n h (ps, ce, cp) s = Inr (ps', ce', cp') \<Longrightarrow> chain h cp s \<Longrightarrow> distinct cp \<Longrightarrow>
      \<forall>e \<in> set cp. (m_state e, s) \<in> (edges h)\<^sup>+ \<Longrightarrow>
      \<exists>new. ps' = ps @ new \<and> distinct new \<and> set new = (@) cp ` {q. sinkPath h s q} \<and> ce' = ce"
    and acyc: "acyclic (edges h)"
  shows "followBranches n h bs (ps, ce, cp) f = Inr ((ps', ce', cp'), f') \<Longrightarrow> cp \<noteq> [] \<Longrightarrow>
     chain h (butlast cp) (m_state (last cp)) \<Longrightarrow> distinct (butlast cp) \<Longrightarrow>
     \<forall>e \<in> set (butlast cp). (m_state e, m_state (last cp)) \<in> (edges h)\<^sup>+ \<Longrightarrow>
     m_state (last cp) < length (states h) \<Longrightarrow>
     set bs \<subseteq> set (m_branches (states h ! m_state (last cp))) \<Longrightarrow> distinct bs \<Longrightarrow>
     m_branch (last cp) \<notin> Some ` set bs \<Longrightarrow>
     \<exists>new. ps' = ps @ new \<and> distinct new \<and>
       set new = (\<Union>b \<in> set bs.
          (\<lambda>q. butlast cp @ \<lparr>m_state = m_state (last cp), m_branch = Some b\<rparr> # q) `
            {q. sinkPath h (m_nextState (branches h ! b)) q}) \<and>
       ce' = ce \<and> f' = (f \<or> bs \<noteq> [])"
proof (induction bs arbitrary: ps ce cp f)
  case Nil
  then show ?case by simp
next
  case (Cons b bs)
  let ?s = "m_state (last cp)"
  let ?t = "m_nextState (branches h ! b)"
  let ?cp = "setBranch cp b"
  let ?paths = "\<lambda>b. (\<lambda>q. butlast cp @ \<lparr>m_state = ?s, m_branch = Some b\<rparr> # q) `
            {q. sinkPath h (m_nextState (branches h ! b)) q}"
  from Cons.prems(7) have b_in: "b \<in> set (m_branches (states h ! ?s))" by simp
  from Cons.prems(9) have nb: "m_branch (last cp) \<noteq> Some b" by auto
  from Cons.prems(1) have b: "b < length (branches h)"
    by (simp add: followBranches_Cons_Inr)
  have can: "canFollow h cp b"
    by (rule dag_canFollow [OF acyc Cons.prems(2,5,6) b_in nb])
  with Cons.prems(1) obtain ps2 ce2 cp2 where
    v: "findPathsImpl n h (ps, ce, ?cp) ?t = Inr (ps2, ce2, cp2)"
    and l: "followBranches n h bs (ps2, ce2, cp2) True = Inr ((ps', ce', cp'), f')"
    by (auto simp: followBranches_Cons_Inr)
  from findPathsImpl_restore [OF v] have cp2: "cp2 = ?cp" .
  from setBranch_chain [OF Cons.prems(2,3,4,6) b_in b can]
  have c: "chain h ?cp ?t" "distinct ?cp" by simp_all
  from Cons.prems(6) b_in have edge: "(?s, ?t) \<in> edges h" by (auto simp: edges_def)
  have reach: "\<forall>e \<in> set ?cp. (m_state e, ?t) \<in> (edges h)\<^sup>+"
  proof
    fix e assume "e \<in> set ?cp"
    then have "e \<in> set (butlast cp) \<or> m_state e = ?s"
      by (auto simp: setBranch_def)
    with Cons.prems(5) edge show "(m_state e, ?t) \<in> (edges h)\<^sup>+"
      by (auto intro: trancl_into_trancl)
  qed
  from IH [OF v c reach] obtain new1 where
    new1: "ps2 = ps @ new1" "distinct new1" "set new1 = (@) ?cp ` {q. sinkPath h ?t q}"
      "ce2 = ce"
    by blast
  have set1: "set new1 = ?paths b"
    unfolding new1(3) by (simp add: setBranch_append image_def)
  from Cons.prems have "\<exists>new. ps' = ps2 @ new \<and> distinct new \<and>
       set new = (\<Union>b \<in> set bs.
          (\<lambda>q. butlast ?cp @ \<lparr>m_state = m_state (last ?cp), m_branch = Some b\<rparr> # q) `
            {q. sinkPath h (m_nextState (branches h ! b)) q}) \<and>
       ce' = ce2 \<and> f' = (True \<or> bs \<noteq> [])"
    by (intro Cons.IH [OF l [unfolded cp2]]) (auto simp: last_setBranch_eq)
  then obtain new2 where
    new2: "ps' = ps2 @ new2" "distinct new2" "set new2 = (\<Union>b \<in> set bs. ?paths b)"
      "ce' = ce2" "f' = True"
    by auto
  from Cons.prems(8) have "set new1 \<inter> set new2 = {}"
    unfolding set1 new2(3) by auto
  with new1 new2 set1
  have "ps' = ps @ (new1 @ new2) \<and> distinct (new1 @ new2) \<and>
      set (new1 @ new2) = (\<Union>b \<in> set (b # bs). ?paths b) \<and> ce' = ce \<and> f' = (f \<or> b # bs \<noteq> [])"
    by simp
  then show ?case by blast
qed

lemma findPathsImpl_dag:
  assumes acyc: "acyclic (edges h)" and db: "distinct_branches h"
  shows "findPathsImpl n h (ps, ce, cp) s = Inr (ps', ce', cp') \<Longrightarrow> chain h cp s \<Longrightarrow>
     distinct cp \<Longrightarrow> \<forall>e \<in> set cp. (m_state e, s) \<in> (edges h)\<^sup>+ \<Longrightarrow>
     \<exists>new. ps' = ps @ new \<and> distinct new \<and> set new = (@) cp ` {q. sinkPath h s q} \<and> ce' = ce"
proof (induction n arbitrary: ps ce cp s ps' ce' cp')
  case 0
  then show ?case by simp
next
  case (Suc n)
  from Suc.prems(1) have s: "s < length (states h)" by (simp add: findPathsImpl_Suc_Inr)
  show ?case
  proof (cases "m_branches (states h ! s) = []")
    case True
    with Suc.prems(1) have "ps' = ps @ [pushState cp s]" "ce' = ce"
      by (simp_all add: findPathsImpl_Suc_Inr)
    with sinkPaths_leaf [OF s True, of cp] show ?thesis by simp
  next
    case False
    with Suc.prems(1) obtain ce2 cp2 f where
      l: "followBranches n h (m_branches (states h ! s)) (ps, ce, pushState cp s) False
            = Inr ((ps', ce2, cp2), f)"
      and c: "ce' = (if f then ce2 else ce2 @ [cp2])"
      by (auto simp: findPathsImpl_Suc_Inr)
    from db s have d: "distinct (m_branches (states h ! s))"
      by (simp add: distinct_branches_iff)
    have "\<exists>new. ps' = ps @ new \<and> distinct new \<and>
       set new = (\<Union>b \<in> set (m_branches (states h ! s)).
          (\<lambda>q. butlast (pushState cp s) @
                \<lparr>m_state = m_state (last (pushState cp s)), m_branch = Some b\<rparr> # q) `
            {q. sinkPath h (m_nextState (branches h ! b)) q}) \<and>
       ce2 = ce \<and> f = (False \<or> m_branches (states h ! s) \<noteq> [])"
    proof (rule followBranches_dag [OF _ acyc l])
      show "\<exists>new. ps' = ps @ new \<and> distinct new \<and>
              set new = (@) cp ` {q. sinkPath h s q} \<and> ce' = ce"
        if "findPathsImpl n h (ps, ce, cp) s = Inr (ps', ce', cp')" "chain h cp s" "distinct cp"
          "\<forall>e \<in> set cp. (m_state e, s) \<in> (edges h)\<^sup>+"
        for ps ce cp s ps' ce' cp'
        using that by (rule Suc.IH)
    qed (use Suc.prems(2,3,4) s d in \<open>auto simp: pushState_def\<close>)
    with False c sinkPaths_node [OF s False, of cp] show ?thesis
      by (auto simp: pushState_def)
  qed
qed

section \<open>createGraph: the three failures\<close>

lemma declareStates_dup:
  "\<not> (distinct (map fst g) \<and> (\<forall>name \<in> fst ` set g. m name = None)) \<Longrightarrow>
   \<exists>name. declareStates g (m, h) = Inl (DuplicateState name) \<and> name \<in> fst ` set g \<and>
          (m name \<noteq> None \<or> 1 < count_list (map fst g) name)"
proof (induction g arbitrary: m h)
  case Nil
  then show ?case by simp
next
  case (Cons entry g)
  obtain stateName branched where entry: "entry = (stateName, branched)" by (cases entry) auto
  show ?case
  proof (cases "m stateName")
    case (Some a)
    then show ?thesis by (auto simp: entry)
  next
    case None
    let ?m = "m(stateName \<mapsto> length (states h))"
    let ?h = "h\<lparr>states := states h @ [\<lparr>m_name = stateName, m_branches = []\<rparr>]\<rparr>"
    from Cons.prems None
    have "\<not> (distinct (map fst g) \<and> (\<forall>name \<in> fst ` set g. ?m name = None))"
      by (auto simp: entry)
    from Cons.IH [OF this, of ?h] obtain name where
      r: "declareStates g (?m, ?h) = Inl (DuplicateState name)" and
      n: "name \<in> fst ` set g" "?m name \<noteq> None \<or> 1 < count_list (map fst g) name"
      by blast
    from n have "m name \<noteq> None \<or> 1 < count_list (map fst (entry # g)) name"
      by (auto simp: entry count_list_0_iff split: if_splits)
         (metis count_list_0_iff image_eqI less_one linorder_neqE_nat not_less0 fst_conv list.set_map)
    with r n(1) None show ?thesis by (auto simp: entry)
  qed
qed

lemma declareStates_ok:
  "distinct (map fst g) \<Longrightarrow> \<forall>name \<in> fst ` set g. m name = None \<Longrightarrow>
   \<exists>m' h'. declareStates g (m, h) = Inr (m', h') \<and> dom m' = dom m \<union> fst ` set g"
proof (induction g arbitrary: m h)
  case Nil
  then show ?case by simp
next
  case (Cons entry g)
  obtain stateName branched where entry: "entry = (stateName, branched)" by (cases entry) auto
  let ?m = "m(stateName \<mapsto> length (states h))"
  let ?h = "h\<lparr>states := states h @ [\<lparr>m_name = stateName, m_branches = []\<rparr>]\<rparr>"
  from Cons.prems have "distinct (map fst g)" "\<forall>name \<in> fst ` set g. ?m name = None"
    by (auto simp: entry)
  from Cons.IH [OF this, of ?h] obtain m' h' where
    r: "declareStates g (?m, ?h) = Inr (m', h')" and d: "dom m' = dom ?m \<union> fst ` set g"
    by blast
  from Cons.prems have "m stateName = None" by (simp add: entry)
  with r d show ?case by (simp add: entry)
qed

lemma linkBranches_unresolved:
  "\<not> set succs \<subseteq> dom m \<Longrightarrow>
   \<exists>t \<in> set succs. m t = None \<and> linkBranches m s succs h = Inl (UnresolvedReference t)"
  by (induction succs arbitrary: h) (auto split: option.splits)

lemma linkBranches_ok:
  "set succs \<subseteq> dom m \<Longrightarrow> \<exists>h'. linkBranches m s succs h = Inr h'"
  by (induction succs arbitrary: h) (auto split: option.splits)

lemma linkStates_unresolved:
  "fst ` set g \<subseteq> dom m \<Longrightarrow> \<not> successors g \<subseteq> dom m \<Longrightarrow>
   \<exists>t \<in> successors g. m t = None \<and> linkStates m g h = Inl (UnresolvedReference t)"
proof (induction g arbitrary: h)
  case Nil
  then show ?case by (simp add: successors_def)
next
  case (Cons entry g)
  obtain stateName branched where entry: "entry = (stateName, branched)" by (cases entry) auto
  from Cons.prems(1) obtain s where s: "m stateName = Some s" by (auto simp: entry)
  show ?case
  proof (cases "set branched \<subseteq> dom m")
    case True
    from linkBranches_ok [OF this] obtain h' where h': "linkBranches m s branched h = Inr h'"
      by blast
    from True Cons.prems have "fst ` set g \<subseteq> dom m" "\<not> successors g \<subseteq> dom m"
      by (auto simp: entry successors_def)
    from Cons.IH [OF this, of h'] s h' show ?thesis
      by (auto simp: entry successors_def)
  next
    case False
    from linkBranches_unresolved [OF this, of s h] s show ?thesis
      by (auto simp: entry successors_def)
  qed
qed

lemma linkStates_ok:
  "fst ` set g \<subseteq> dom m \<Longrightarrow> successors g \<subseteq> dom m \<Longrightarrow> \<exists>h'. linkStates m g h = Inr h'"
proof (induction g arbitrary: h)
  case Nil
  then show ?case by simp
next
  case (Cons entry g)
  obtain stateName branched where entry: "entry = (stateName, branched)" by (cases entry) auto
  from Cons.prems(1) obtain s where s: "m stateName = Some s" by (auto simp: entry)
  from Cons.prems have "set branched \<subseteq> dom m" by (auto simp: entry successors_def)
  from linkBranches_ok [OF this] obtain h' where h': "linkBranches m s branched h = Inr h'"
    by blast
  from Cons.prems have "fst ` set g \<subseteq> dom m" "successors g \<subseteq> dom m"
    by (auto simp: entry successors_def)
  from Cons.IH [OF this, of h'] s h' show ?case
    by (auto simp: entry)
qed

lemma createGraph_duplicate:
  "\<not> distinct (map fst graph) \<Longrightarrow>
   \<exists>name. createGraph graph = Inl (DuplicateState name) \<and> 1 < count_list (map fst graph) name"
proof -
  assume "\<not> distinct (map fst graph)"
  then have "\<not> (distinct (map fst graph) \<and> (\<forall>name \<in> fst ` set graph. Map.empty name = None))"
    by simp
  from declareStates_dup [OF this, of empty_heap] show ?thesis
    by (auto simp: createGraph_def)
qed

lemma createGraph_unresolved:
  assumes "distinct (map fst graph)" "\<not> successors graph \<subseteq> fst ` set graph"
  shows "\<exists>t \<in> successors graph. t \<notin> fst ` set graph \<and>
           createGraph graph = Inl (UnresolvedReference t)"
proof -
  from declareStates_ok [OF assms(1), of Map.empty empty_heap] obtain m h where
    d: "declareStates graph (Map.empty, empty_heap) = Inr (m, h)" and dom: "dom m = fst ` set graph"
    by auto
  from assms(2) dom have "fst ` set graph \<subseteq> dom m" "\<not> successors graph \<subseteq> dom m" by auto
  from linkStates_unresolved [OF this, of h] obtain t where
    "t \<in> successors graph" "m t = None" "linkStates m graph h = Inl (UnresolvedReference t)"
    by blast
  moreover from \<open>m t = None\<close> dom have "t \<notin> fst ` set graph" by (metis domIff)
  ultimately show ?thesis using d
    by (auto simp: createGraph_def)
qed

lemma createGraph_resolved:
  assumes "distinct (map fst graph)" "successors graph \<subseteq> fst ` set graph"
  shows "if ''start'' \<in> fst ` set graph then \<exists>h s. createGraph graph = Inr (h, s)
         else createGraph graph = Inl MissingEntryState"
proof -
  from declareStates_ok [OF assms(1), of Map.empty empty_heap] obtain m h where
    d: "declareStates graph (Map.empty, empty_heap) = Inr (m, h)" and dom: "dom m = fst ` set graph"
    by auto
  from assms(2) dom have "fst ` set graph \<subseteq> dom m" "successors graph \<subseteq> dom m" by auto
  from linkStates_ok [OF this, of h] obtain h' where "linkStates m graph h = Inr h'" by blast
  with d dom show ?thesis
    by (auto simp: createGraph_def split: option.splits)
qed


lemma unordered_map_of_distinct: "distinct (map fst (unordered_map_of spec))"
proof (induction spec)
  case Nil
  then show ?case by simp
next
  case (Cons entry spec)
  have "distinct (map fst (filter (\<lambda>e. fst e \<noteq> fst entry) (unordered_map_of spec)))"
    using Cons.IH by (simp add: distinct_map_filter)
  then show ?case by auto
qed

lemma unordered_map_of_id: "distinct (map fst spec) \<Longrightarrow> unordered_map_of spec = spec"
proof (induction spec)
  case Nil
  then show ?case by simp
next
  case (Cons entry spec)
  from Cons.prems have "fst entry \<notin> fst ` set spec" by simp
  then have "\<forall>e \<in> set spec. fst e \<noteq> fst entry"
    by (metis imageI)
  then have "filter (\<lambda>e. fst e \<noteq> fst entry) spec = spec"
    by (rule filter_True)
  with Cons show ?case by simp
qed










text \<open>
  Claim C7, as the code has it. The graph is a map, so its names are distinct. If some
  branched state is not a name of the graph, \<open>createGraph\<close> fails with the message for an
  undefined state, for such a name. If every branched state is a name of the graph and
  no state is named start, it fails with the message for the missing start state. A
  failure is a value that carries no graph.
\<close>

theorem createGraph_referential_integrity:
  "distinct (map fst graph) \<Longrightarrow>
   (\<not> successors graph \<subseteq> fst ` set graph \<longrightarrow>
      (\<exists>t \<in> successors graph. t \<notin> fst ` set graph \<and>
         createGraph graph = Inl (UnresolvedReference t))) \<and>
   (successors graph \<subseteq> fst ` set graph \<and> ''start'' \<notin> fst ` set graph \<longrightarrow>
      createGraph graph = Inl MissingEntryState)"
proof -
  assume d: "distinct (map fst graph)"
  have unresolved: "\<not> successors graph \<subseteq> fst ` set graph \<longrightarrow>
      (\<exists>t \<in> successors graph. t \<notin> fst ` set graph \<and>
         createGraph graph = Inl (UnresolvedReference t))"
    using createGraph_unresolved [OF d] by blast
  have missing: "successors graph \<subseteq> fst ` set graph \<and> ''start'' \<notin> fst ` set graph \<longrightarrow>
      createGraph graph = Inl MissingEntryState"
    using createGraph_resolved [OF d] by auto
  from unresolved missing show ?thesis by (rule conjI)
qed

theorem createGraph_referential_integrity_witness:
  "distinct (map fst [(''start'', [''a'']), (''b'', [''start''])]) \<and>
   \<not> successors [(''start'', [''a'']), (''b'', [''start''])]
       \<subseteq> fst ` set [(''start'', [''a'']), (''b'', [''start''])] \<and>
   (\<exists>t \<in> successors [(''start'', [''a'']), (''b'', [''start''])].
       t \<notin> fst ` set [(''start'', [''a'']), (''b'', [''start''])] \<and>
       createGraph [(''start'', [''a'']), (''b'', [''start''])] = Inl (UnresolvedReference t)) \<and>
   distinct (map fst [(''a'', [''b'']), (''b'', [])]) \<and>
   successors [(''a'', [''b'']), (''b'', [])] \<subseteq> fst ` set [(''a'', [''b'']), (''b'', [])] \<and>
   ''start'' \<notin> fst ` set [(''a'', [''b'']), (''b'', [])] \<and>
   createGraph [(''a'', [''b'']), (''b'', [])] = Inl MissingEntryState"
proof -
  have d1: "distinct (map fst [(''start'', [''a'']), (''b'', [''start''])])" by simp
  have u1: "\<not> successors [(''start'', [''a'']), (''b'', [''start''])]
       \<subseteq> fst ` set [(''start'', [''a'']), (''b'', [''start''])]"
    by (simp add: successors_def)
  have d2: "distinct (map fst [(''a'', [''b'']), (''b'', [])])" by simp
  have u2: "successors [(''a'', [''b'']), (''b'', [])] \<subseteq> fst ` set [(''a'', [''b'']), (''b'', [])]"
    by (simp add: successors_def)
  have s2: "''start'' \<notin> fst ` set [(''a'', [''b'']), (''b'', [])]" by simp
  from createGraph_referential_integrity [OF d1] u1
       createGraph_referential_integrity [OF d2] u2 s2 d1 d2
  show ?thesis by (intro conjI) blast+
qed

text \<open>
  The claim as the specification words it fails: a graph without a state named start
  that also names an undefined state fails in the second loop, with the message for the
  undefined state, before the start state is looked up.
\<close>

theorem createGraph_missing_start_counterexample:
  "''start'' \<notin> fst ` set [(''a'', [''b''])] \<and>
   createGraph [(''a'', [''b''])] = Inl (UnresolvedReference ''b'') \<and>
   createGraph [(''a'', [''b''])] \<noteq> Inl MissingEntryState"
  by (simp add: createGraph_def empty_heap_def)

section \<open>createGraph builds a well-formed heap\<close>

lemma new_state_wf:
  assumes "wf_heap h" "distinct_branches h" "wf_names m h"
  shows "wf_heap (h\<lparr>states := states h @ [\<lparr>m_name = name, m_branches = []\<rparr>]\<rparr>) \<and>
         distinct_branches (h\<lparr>states := states h @ [\<lparr>m_name = name, m_branches = []\<rparr>]\<rparr>) \<and>
         wf_names (m(name \<mapsto> length (states h)))
           (h\<lparr>states := states h @ [\<lparr>m_name = name, m_branches = []\<rparr>]\<rparr>)"
  using assms by (auto simp: wf_heap_iff distinct_branches_iff wf_names_def less_Suc_eq)

lemma declareStates_wf:
  "declareStates g (m, h) = Inr (m', h') \<Longrightarrow> wf_heap h \<Longrightarrow> distinct_branches h \<Longrightarrow>
   wf_names m h \<Longrightarrow> wf_heap h' \<and> distinct_branches h' \<and> wf_names m' h'"
proof (induction g arbitrary: m h)
  case Nil
  then show ?case by simp
next
  case (Cons entry g)
  obtain stateName branched where entry: "entry = (stateName, branched)" by (cases entry) auto
  let ?m = "m(stateName \<mapsto> length (states h))"
  let ?h = "h\<lparr>states := states h @ [\<lparr>m_name = stateName, m_branches = []\<rparr>]\<rparr>"
  from Cons.prems(1) have "declareStates g (?m, ?h) = Inr (m', h')"
    by (simp add: entry split: option.splits)
  moreover from new_state_wf [OF Cons.prems(2,3,4), of stateName]
  have "wf_heap ?h" "distinct_branches ?h" "wf_names ?m ?h" by simp_all
  ultimately show ?case by (rule Cons.IH)
qed

lemma push_branch_wf:
  assumes "wf_heap h" "distinct_branches h" "s < length (states h)" "t < length (states h)"
  shows "wf_heap (push_branch h s t) \<and> distinct_branches (push_branch h s t) \<and>
         length (states (push_branch h s t)) = length (states h)"
proof -
  let ?st = "(states h ! s)\<lparr>m_branches := m_branches (states h ! s) @ [length (branches h)]\<rparr>"
  from assms(3) have old: "states h ! s \<in> set (states h)" by simp
  have sub: "set ((states h)[s := ?st]) \<subseteq> insert ?st (set (states h))"
    by (rule set_update_subset_insert)
  from assms(1) old have lt: "\<forall>b \<in> set (m_branches (states h ! s)). b < length (branches h)"
    by (auto simp: wf_heap_iff)
  have "wf_heap (push_branch h s t)"
    unfolding wf_heap_iff
  proof (intro ballI)
    fix st b
    assume st: "st \<in> set (states (push_branch h s t))" and b: "b \<in> set (m_branches st)"
    from st sub have "st = ?st \<or> st \<in> set (states h)" by (auto simp: push_branch_def)
    with b old have "b = length (branches h) \<or>
        (\<exists>st' \<in> set (states h). b \<in> set (m_branches st'))"
      by auto
    with assms(1,4)
    show "b < length (branches (push_branch h s t)) \<and>
          m_nextState (branches (push_branch h s t) ! b) < length (states (push_branch h s t))"
      by (auto simp: wf_heap_iff push_branch_def nth_append)
  qed
  moreover have "distinct_branches (push_branch h s t)"
    unfolding distinct_branches_iff
  proof
    fix st
    assume "st \<in> set (states (push_branch h s t))"
    with sub have "st = ?st \<or> st \<in> set (states h)" by (auto simp: push_branch_def)
    with assms(2) old lt show "distinct (m_branches st)"
      by (auto simp: distinct_branches_iff)
  qed
  ultimately show ?thesis by (simp add: push_branch_def)
qed

lemma wf_names_length:
  "wf_names m h \<Longrightarrow> length (states h') = length (states h) \<Longrightarrow> wf_names m h'"
  by (simp add: wf_names_def)

lemma linkBranches_wf:
  "linkBranches m s succs h = Inr h' \<Longrightarrow> wf_heap h \<Longrightarrow> distinct_branches h \<Longrightarrow>
   wf_names m h \<Longrightarrow> s < length (states h) \<Longrightarrow>
   wf_heap h' \<and> distinct_branches h' \<and> length (states h') = length (states h)"
proof (induction succs arbitrary: h)
  case Nil
  then show ?case by simp
next
  case (Cons name succs)
  from Cons.prems(1) obtain t where t: "m name = Some t"
    and r: "linkBranches m s succs (push_branch h s t) = Inr h'"
    by (auto split: option.splits)
  from t Cons.prems(4) have "t < length (states h)" by (simp add: wf_names_def)
  from push_branch_wf [OF Cons.prems(2,3,5) this]
  have p: "wf_heap (push_branch h s t)" "distinct_branches (push_branch h s t)"
    "length (states (push_branch h s t)) = length (states h)" by simp_all
  from Cons.IH [OF r p(1,2) wf_names_length [OF Cons.prems(4) p(3)]] Cons.prems(5) p(3)
  show ?case by simp
qed

lemma linkStates_wf:
  "linkStates m g h = Inr h' \<Longrightarrow> wf_heap h \<Longrightarrow> distinct_branches h \<Longrightarrow> wf_names m h \<Longrightarrow>
   wf_heap h' \<and> distinct_branches h' \<and> length (states h') = length (states h)"
proof (induction g arbitrary: h)
  case Nil
  then show ?case by simp
next
  case (Cons entry g)
  obtain stateName branched where entry: "entry = (stateName, branched)" by (cases entry) auto
  from Cons.prems(1) obtain s h1 where s: "m stateName = Some s"
    and l: "linkBranches m s branched h = Inr h1" and r: "linkStates m g h1 = Inr h'"
    by (auto simp: entry split: option.splits sum.splits)
  from s Cons.prems(4) have "s < length (states h)" by (simp add: wf_names_def)
  from linkBranches_wf [OF l Cons.prems(2,3,4) this]
  have p: "wf_heap h1" "distinct_branches h1" "length (states h1) = length (states h)"
    by simp_all
  from Cons.IH [OF r p(1,2) wf_names_length [OF Cons.prems(4) p(3)]] p(3)
  show ?case by simp
qed

lemma createGraph_wf:
  assumes "createGraph graph = Inr (h, start)"
  shows "wf_heap h \<and> distinct_branches h \<and> start < length (states h)"
proof -
  from assms obtain m h0 where d: "declareStates graph (Map.empty, empty_heap) = Inr (m, h0)"
    and l: "linkStates m graph h0 = Inr h" and s: "m ''start'' = Some start"
    by (auto simp: createGraph_def split: sum.splits option.splits)
  have "wf_heap empty_heap" "distinct_branches empty_heap" "wf_names Map.empty empty_heap"
    by (simp_all add: wf_heap_def distinct_branches_def wf_names_def empty_heap_def)
  from declareStates_wf [OF d this]
  have p: "wf_heap h0" "distinct_branches h0" "wf_names m h0" by simp_all
  from linkStates_wf [OF l p] s p(3) show ?thesis by (simp add: wf_names_def)
qed

section \<open>The search on names\<close>

lemma indexOf_nth: "distinct xs \<Longrightarrow> i < length xs \<Longrightarrow> indexOf xs (xs ! i) = i"
proof (induction xs arbitrary: i)
  case Nil
  then show ?case by simp
next
  case (Cons x xs)
  then show ?case by (cases i) (auto simp: nth_Cons')
qed

lemma indexOf_eq:
  "distinct xs \<Longrightarrow> i < length xs \<Longrightarrow> x \<in> set xs \<Longrightarrow> indexOf xs x = i \<longleftrightarrow> x = xs ! i"
  by (metis in_set_conv_nth indexOf_nth)

lemma canFollow_abs:
  assumes rep: "represents h G"
    and ne: "cp \<noteq> []"
    and valid: "list_all (validElement h) cp"
    and i: "i < length (m_branches (states h ! m_state (last cp)))"
  shows "nameCanFollow G (map (absElement h) cp) i
         \<longleftrightarrow> canFollow h cp (m_branches (states h ! m_state (last cp)) ! i)"
proof -
  let ?s = "m_state (last cp)"
  let ?brs = "m_branches (states h ! ?s)"
  let ?b = "?brs ! i"
  from ne valid have s: "?s < length (states h)"
    by (auto simp: list_all_iff validElement_def)
  from rep s have d: "distinct ?brs"
    by (simp add: represents_def distinct_branches_iff)
  from i have b_in: "?b \<in> set ?brs" by simp
  from rep s b_in have t: "m_nextState (branches h ! ?b) < length (states h)"
    by (auto simp: represents_def dest: wf_heapD)
  from ne have last: "fst (last (map (absElement h) cp)) = nameOf h ?s"
    by (simp add: last_map absElement_def)
  from rep s i have G: "G (nameOf h ?s) ! i = nameOf h (m_nextState (branches h ! ?b))"
    by (simp add: represents_def)
  from rep s t have target:
    "nameOf h (m_nextState (branches h ! ?b)) = nameOf h ?s \<longleftrightarrow> m_nextState (branches h ! ?b) = ?s"
    by (auto simp: represents_def)
  have elem: "(fst (absElement h e) = nameOf h ?s \<and> snd (absElement h e) = Some i)
      \<longleftrightarrow> (m_state e = ?s \<and> m_branch e = Some ?b)" if "e \<in> set cp" for e
  proof -
    from that valid have ve: "validElement h e" by (simp add: list_all_iff)
    then have se: "m_state e < length (states h)" by (simp add: validElement_def)
    with rep s have same: "nameOf h (m_state e) = nameOf h ?s \<longleftrightarrow> m_state e = ?s"
      by (auto simp: represents_def)
    show ?thesis
    proof (cases "m_state e = ?s")
      case True
      show ?thesis
      proof (cases "m_branch e")
        case None
        then show ?thesis by (simp add: absElement_def)
      next
        case (Some b')
        with ve True have "b' \<in> set ?brs" by (simp add: validElement_def)
        from indexOf_eq [OF d i this] True Some show ?thesis
          by (simp add: absElement_def)
      qed
    next
      case False
      with same show ?thesis by (simp add: absElement_def)
    qed
  qed
  then have "list_ex (\<lambda>elem. fst elem = nameOf h ?s \<and> snd elem = Some i) (map (absElement h) cp)
      \<longleftrightarrow> list_ex (\<lambda>elem. m_state elem = ?s \<and> m_branch elem = Some ?b) cp"
    by (simp add: list_ex_iff)
  with last G target show ?thesis
    by (simp add: nameCanFollow_def canFollow_def)
qed

lemma setBranch_abs:
  assumes "represents h G" "cp \<noteq> []" "m_state (last cp) < length (states h)"
    "i < length (m_branches (states h ! m_state (last cp)))"
  shows "map (absElement h) (setBranch cp (m_branches (states h ! m_state (last cp)) ! i))
         = butlast (map (absElement h) cp) @ [(fst (last (map (absElement h) cp)), Some i)]"
proof -
  from assms have "distinct (m_branches (states h ! m_state (last cp)))"
    by (simp add: represents_def distinct_branches_iff)
  from indexOf_nth [OF this assms(4)] assms(2) show ?thesis
    by (simp add: setBranch_def map_butlast last_map absElement_def)
qed

lemma setBranch_valid:
  "cp \<noteq> [] \<Longrightarrow> list_all (validElement h) cp \<Longrightarrow>
   b \<in> set (m_branches (states h ! m_state (last cp))) \<Longrightarrow>
   list_all (validElement h) (setBranch cp b)"
  by (auto simp: setBranch_def list_all_iff validElement_def dest: in_set_butlastD)

lemma absSearch_simp [simp]:
  "absSearch h (ps, ce, cp) =
     (map (map (absElement h)) ps, map (map (absElement h)) ce, map (absElement h) cp)"
  by (simp add: absSearch_def)

lemma followBranches_Cons_eq:
  "cp \<noteq> [] \<Longrightarrow> b < length (branches h) \<Longrightarrow>
   followBranches n h (b # bs) (ps, ce, cp) f =
     (if canFollow h cp b
      then (case findPathsImpl n h (ps, ce, setBranch cp b) (m_nextState (branches h ! b)) of
              Inl e \<Rightarrow> Inl e
            | Inr sr \<Rightarrow> followBranches n h bs sr True)
      else followBranches n h bs (ps, ce, cp) f)"
  by (simp add: followBranches.simps followBranch_def getBranch_def canFollow_def setBranch_def)

lemma findPathsImpl_Suc_eq:
  "s < length (states h) \<Longrightarrow>
   findPathsImpl (Suc n) h (ps, ce, cp) s =
     (if m_branches (states h ! s) = [] then Inr (ps @ [pushState cp s], ce, cp)
      else (case followBranches n h (m_branches (states h ! s)) (ps, ce, pushState cp s) False of
              Inl e \<Rightarrow> Inl e
            | Inr ((ps', ce', cp'), f) \<Rightarrow>
                if cp' = [] then Inl AssertionFailed
                else Inr (ps', if f then ce' else ce' @ [cp'], butlast cp')))"
  by (auto simp: findPathsImpl.simps getState_def popState_def pushState_def
           split: sum.splits prod.splits)

lemma sim_followBranches:
  assumes rep: "represents h G"
    and IH: "\<And>ps ce cp s. s < length (states h) \<Longrightarrow> list_all (validElement h) cp \<Longrightarrow>
      nameFindPathsImpl n G (absSearch h (ps, ce, cp)) (nameOf h s) =
        (case findPathsImpl n h (ps, ce, cp) s of
           Inl e \<Rightarrow> None | Inr sr \<Rightarrow> Some (absSearch h sr))"
  shows "cp \<noteq> [] \<Longrightarrow> list_all (validElement h) cp \<Longrightarrow>
     set is \<subseteq> {..<length (m_branches (states h ! m_state (last cp)))} \<Longrightarrow>
     nameFollowBranches n G is (absSearch h (ps, ce, cp)) f =
       (case followBranches n h (map ((!) (m_branches (states h ! m_state (last cp)))) is)
               (ps, ce, cp) f of
          Inl e \<Rightarrow> None | Inr (sr, f') \<Rightarrow> Some (absSearch h sr, f'))"
proof (induction "is" arbitrary: ps ce cp f)
  case Nil
  then show ?case by simp
next
  case (Cons i "is")
  let ?s = "m_state (last cp)"
  let ?brs = "m_branches (states h ! ?s)"
  let ?b = "?brs ! i"
  let ?t = "m_nextState (branches h ! ?b)"
  from Cons.prems(3) have i: "i < length ?brs" by simp
  then have b_in: "?b \<in> set ?brs" by simp
  from Cons.prems(1,2) have s: "?s < length (states h)"
    by (auto simp: list_all_iff validElement_def)
  from rep s b_in have b: "?b < length (branches h)" and t: "?t < length (states h)"
    by (auto simp: represents_def dest: wf_heapD)
  from Cons.prems(1) have last: "fst (last (map (absElement h) cp)) = nameOf h ?s"
    by (simp add: last_map absElement_def)
  from rep s i have G: "G (nameOf h ?s) ! i = nameOf h ?t"
    by (simp add: represents_def)
  note can = canFollow_abs [OF rep Cons.prems(1,2) i]
  show ?case
  proof (cases "canFollow h cp ?b")
    case True
    have valid': "list_all (validElement h) (setBranch cp ?b)"
      by (rule setBranch_valid [OF Cons.prems(1,2) b_in])
    have name_step: "nameFindPathsImpl n G
        (map (map (absElement h)) ps, map (map (absElement h)) ce,
         butlast (map (absElement h) cp) @ [(nameOf h ?s, Some i)]) (nameOf h ?t)
      = (case findPathsImpl n h (ps, ce, setBranch cp ?b) ?t of
           Inl e \<Rightarrow> None | Inr sr \<Rightarrow> Some (absSearch h sr))"
      using IH [OF t valid', of ps ce] setBranch_abs [OF rep Cons.prems(1) s i] last
      by simp
    show ?thesis
    proof (cases "findPathsImpl n h (ps, ce, setBranch cp ?b) ?t")
      case (Inl e)
      with True can name_step last G show ?thesis
        by (simp add: followBranches_Cons_eq [OF Cons.prems(1) b])
    next
      case (Inr sr)
      obtain ps2 ce2 cp2 where sr: "sr = (ps2, ce2, cp2)" by (cases sr) auto
      from findPathsImpl_restore [OF Inr [unfolded sr]] have cp2: "cp2 = setBranch cp ?b" .
      from Cons.prems(3) have "set is \<subseteq> {..<length (m_branches (states h ! m_state (last cp2)))}"
        by (simp add: cp2)
      from Cons.IH [OF _ _ this, of ps2 ce2 True] valid'
      have "nameFollowBranches n G is (absSearch h (ps2, ce2, cp2)) True =
         (case followBranches n h (map ((!) ?brs) is) (ps2, ce2, cp2) True of
            Inl e \<Rightarrow> None | Inr (sr, f') \<Rightarrow> Some (absSearch h sr, f'))"
        by (simp add: cp2)
      with Inr True can name_step last G show ?thesis
        by (simp add: followBranches_Cons_eq [OF Cons.prems(1) b] sr)
    qed
  next
    case False
    from Cons.prems have "nameFollowBranches n G is (absSearch h (ps, ce, cp)) f =
       (case followBranches n h (map ((!) ?brs) is) (ps, ce, cp) f of
          Inl e \<Rightarrow> None | Inr (sr, f') \<Rightarrow> Some (absSearch h sr, f'))"
      by (intro Cons.IH) simp_all
    with False can show ?thesis
      by (simp add: followBranches_Cons_eq [OF Cons.prems(1) b])
  qed
qed

lemma sim_findPathsImpl:
  assumes rep: "represents h G"
  shows "s < length (states h) \<Longrightarrow> list_all (validElement h) cp \<Longrightarrow>
      nameFindPathsImpl n G (absSearch h (ps, ce, cp)) (nameOf h s) =
        (case findPathsImpl n h (ps, ce, cp) s of
           Inl e \<Rightarrow> None | Inr sr \<Rightarrow> Some (absSearch h sr))"
proof (induction n arbitrary: ps ce cp s)
  case 0
  then show ?case by simp
next
  case (Suc n)
  let ?brs = "m_branches (states h ! s)"
  from rep Suc.prems(1) have G: "G (nameOf h s) = map (\<lambda>b. nameOf h (m_nextState (branches h ! b))) ?brs"
    by (simp add: represents_def)
  show ?case
  proof (cases "?brs = []")
    case True
    with G Suc.prems(1) show ?thesis
      by (simp add: findPathsImpl_Suc_eq pushState_def absElement_def)
  next
    case False
    let ?cp = "pushState cp s"
    have cp: "?cp \<noteq> []" "m_state (last ?cp) = s" by (simp_all add: pushState_def)
    have "validElement h \<lparr>m_state = s, m_branch = None\<rparr>"
      using Suc.prems(1) by (simp add: validElement_def)
    with Suc.prems(2) have valid: "list_all (validElement h) ?cp"
      by (simp add: pushState_def)
    have "nameFollowBranches n G [0..<length ?brs] (absSearch h (ps, ce, ?cp)) False =
       (case followBranches n h (map ((!) (m_branches (states h ! m_state (last ?cp))))
                                   [0..<length ?brs]) (ps, ce, ?cp) False of
          Inl e \<Rightarrow> None | Inr (sr, f') \<Rightarrow> Some (absSearch h sr, f'))"
    proof (rule sim_followBranches [OF rep _ cp(1) valid])
      show "nameFindPathsImpl n G (absSearch h (ps, ce, cp)) (nameOf h s) =
          (case findPathsImpl n h (ps, ce, cp) s of
             Inl e \<Rightarrow> None | Inr sr \<Rightarrow> Some (absSearch h sr))"
        if "s < length (states h)" "list_all (validElement h) cp" for ps ce cp s
        using that by (rule Suc.IH)
    qed (auto simp: cp(2))
    then have loop: "nameFollowBranches n G [0..<length ?brs]
        (map (map (absElement h)) ps, map (map (absElement h)) ce,
         map (absElement h) cp @ [(nameOf h s, None)]) False =
       (case followBranches n h ?brs (ps, ce, ?cp) False of
          Inl e \<Rightarrow> None | Inr (sr, f') \<Rightarrow> Some (absSearch h sr, f'))"
      by (simp add: cp(2) map_nth) (simp add: pushState_def absElement_def)
    show ?thesis
    proof (cases "followBranches n h ?brs (ps, ce, ?cp) False")
      case (Inl e)
      with False G loop Suc.prems(1) show ?thesis
        by (simp add: findPathsImpl_Suc_eq)
    next
      case (Inr r)
      obtain ps2 ce2 cp2 f' where r: "r = ((ps2, ce2, cp2), f')"
        by (metis prod_cases3 surj_pair)
      from followBranches_restore [OF findPathsImpl_restore Inr [unfolded r] cp(1)]
      have "cp2 \<noteq> []" by simp
      with Inr r False G loop Suc.prems(1) show ?thesis
        by (simp add: findPathsImpl_Suc_eq map_butlast)
    qed
  qed
qed

section \<open>createGraph builds a heap that represents the specification\<close>

lemma names_inv_wf_names: "names_inv m h \<Longrightarrow> wf_names m h"
  by (simp add: names_inv_def wf_names_def)

lemma new_state_names_inv:
  assumes "names_inv m h" "m name = None"
  shows "names_inv (m(name \<mapsto> length (states h)))
           (h\<lparr>states := states h @ [\<lparr>m_name = name, m_branches = []\<rparr>]\<rparr>)"
proof -
  from assms have "nameOf h s \<noteq> name" if "s < length (states h)" for s
    using that by (auto simp: names_inv_def)
  with assms(1) show ?thesis
    by (auto simp: names_inv_def nameOf_def nth_append less_Suc_eq)
qed

lemma declareStates_names:
  "declareStates g (m, h) = Inr (m', h') \<Longrightarrow> names_inv m h \<Longrightarrow>
   \<forall>st \<in> set (states h). m_branches st = [] \<Longrightarrow>
   names_inv m' h' \<and> branches h' = branches h \<and> (\<forall>st \<in> set (states h'). m_branches st = [])"
proof (induction g arbitrary: m h)
  case Nil
  then show ?case by simp
next
  case (Cons entry g)
  obtain stateName branched where entry: "entry = (stateName, branched)" by (cases entry) auto
  let ?m = "m(stateName \<mapsto> length (states h))"
  let ?h = "h\<lparr>states := states h @ [\<lparr>m_name = stateName, m_branches = []\<rparr>]\<rparr>"
  from Cons.prems(1) have none: "m stateName = None"
    and r: "declareStates g (?m, ?h) = Inr (m', h')"
    by (simp_all add: entry split: option.splits)
  from new_state_names_inv [OF Cons.prems(2) none] have "names_inv ?m ?h" .
  moreover from Cons.prems(3) have "\<forall>st \<in> set (states ?h). m_branches st = []" by simp
  ultimately have "names_inv m' h' \<and> branches h' = branches ?h \<and>
      (\<forall>st \<in> set (states h'). m_branches st = [])"
    by (rule Cons.IH [OF r])
  then show ?case by simp
qed

lemma push_branch_names:
  assumes "s < length (states h)"
  shows "nameOf (push_branch h s t) i = nameOf h i"
    and "length (states (push_branch h s t)) = length (states h)"
  using assms by (cases "i = s"; simp add: nameOf_def push_branch_def)+

lemma push_branch_targetNames:
  assumes wf: "wf_heap h" and s: "s < length (states h)" and s': "s' < length (states h)"
  shows "targetNames (push_branch h s t) s' =
           (if s' = s then targetNames h s @ [nameOf h t] else targetNames h s')"
    and "s' \<noteq> s \<Longrightarrow> m_branches (states (push_branch h s t) ! s') = m_branches (states h ! s')"
proof -
  have old: "branches (push_branch h s t) ! b = branches h ! b"
    if "b \<in> set (m_branches (states h ! s'))" for b
    using wf_heapD [OF wf s' that] by (simp add: push_branch_def nth_append)
  have new: "branches (push_branch h s t) ! length (branches h) = \<lparr>m_nextState = t\<rparr>"
    by (simp add: push_branch_def)
  have names: "nameOf (push_branch h s t) i = nameOf h i" for i
    by (rule push_branch_names(1) [OF s])
  show "targetNames (push_branch h s t) s' =
           (if s' = s then targetNames h s @ [nameOf h t] else targetNames h s')"
  proof (cases "s' = s")
    case True
    with s have "m_branches (states (push_branch h s t) ! s')
        = m_branches (states h ! s) @ [length (branches h)]"
      by (simp add: push_branch_def)
    with True old new names show ?thesis
      by (simp add: targetNames_def)
  next
    case False
    then have "m_branches (states (push_branch h s t) ! s') = m_branches (states h ! s')"
      by (simp add: push_branch_def)
    with False old names show ?thesis
      by (simp add: targetNames_def)
  qed
  show "s' \<noteq> s \<Longrightarrow> m_branches (states (push_branch h s t) ! s') = m_branches (states h ! s')"
    by (simp add: push_branch_def)
qed

lemma names_inv_push_branch:
  "names_inv m h \<Longrightarrow> s < length (states h) \<Longrightarrow> names_inv m (push_branch h s t)"
  by (simp add: names_inv_def push_branch_names)

lemma linkBranches_names:
  "linkBranches m s succs h = Inr h' \<Longrightarrow> wf_heap h \<Longrightarrow> distinct_branches h \<Longrightarrow>
   names_inv m h \<Longrightarrow> s < length (states h) \<Longrightarrow>
   names_inv m h' \<and> targetNames h' s = targetNames h s @ succs \<and>
   (\<forall>s' < length (states h). s' \<noteq> s \<longrightarrow>
      targetNames h' s' = targetNames h s' \<and>
      m_branches (states h' ! s') = m_branches (states h ! s'))"
proof (induction succs arbitrary: h)
  case Nil
  then show ?case by simp
next
  case (Cons name succs)
  from Cons.prems(1) obtain t where t: "m name = Some t"
    and r: "linkBranches m s succs (push_branch h s t) = Inr h'"
    by (auto split: option.splits)
  let ?h = "push_branch h s t"
  from t Cons.prems(4) have tl: "t < length (states h)" and tn: "nameOf h t = name"
    by (simp_all add: names_inv_def)
  from push_branch_wf [OF Cons.prems(2,3,5) tl]
  have p: "wf_heap ?h" "distinct_branches ?h" "length (states ?h) = length (states h)"
    by simp_all
  from names_inv_push_branch [OF Cons.prems(4,5)] have n: "names_inv m ?h" .
  from Cons.prems(5) p(3) have s: "s < length (states ?h)" by simp
  from Cons.IH [OF r p(1,2) n s]
  have ih: "names_inv m h'" "targetNames h' s = targetNames ?h s @ succs"
    "\<forall>s' < length (states ?h). s' \<noteq> s \<longrightarrow>
      targetNames h' s' = targetNames ?h s' \<and>
      m_branches (states h' ! s') = m_branches (states ?h ! s')"
    by simp_all
  from push_branch_targetNames [OF Cons.prems(2,5)] ih p(3) tn Cons.prems(5)
  show ?case by simp
qed

lemma linkStates_names:
  "linkStates m g h = Inr h' \<Longrightarrow> distinct (map fst g) \<Longrightarrow> wf_heap h \<Longrightarrow> distinct_branches h \<Longrightarrow>
   names_inv m h \<Longrightarrow>
   \<forall>entry \<in> set g. \<forall>s. m (fst entry) = Some s \<longrightarrow> m_branches (states h ! s) = [] \<Longrightarrow>
   names_inv m h' \<and> length (states h') = length (states h) \<and>
   (\<forall>entry \<in> set g. \<forall>s. m (fst entry) = Some s \<longrightarrow> targetNames h' s = snd entry) \<and>
   (\<forall>s < length (states h). nameOf h s \<notin> fst ` set g \<longrightarrow> targetNames h' s = targetNames h s)"
proof (induction g arbitrary: h)
  case Nil
  then show ?case by simp
next
  case (Cons entry g)
  obtain stateName branched where entry: "entry = (stateName, branched)" by (cases entry) auto
  from Cons.prems(1) obtain s h1 where s: "m stateName = Some s"
    and l: "linkBranches m s branched h = Inr h1" and r: "linkStates m g h1 = Inr h'"
    by (auto simp: entry split: option.splits sum.splits)
  from s Cons.prems(5) have sl: "s < length (states h)" and sn: "nameOf h s = stateName"
    by (simp_all add: names_inv_def)
  from linkBranches_wf [OF l Cons.prems(3,4) names_inv_wf_names [OF Cons.prems(5)] sl]
  have p: "wf_heap h1" "distinct_branches h1" "length (states h1) = length (states h)"
    by simp_all
  from linkBranches_names [OF l Cons.prems(3,4,5) sl]
  have n1: "names_inv m h1" and t1: "targetNames h1 s = targetNames h s @ branched"
    and o1: "\<forall>s' < length (states h). s' \<noteq> s \<longrightarrow>
      targetNames h1 s' = targetNames h s' \<and>
      m_branches (states h1 ! s') = m_branches (states h ! s')"
    by simp_all
  from Cons.prems(6) s have "m_branches (states h ! s) = []" by (simp add: entry)
  with t1 have t1': "targetNames h1 s = branched" by (simp add: targetNames_def)
  from Cons.prems(2) have d: "distinct (map fst g)" and fresh: "stateName \<notin> fst ` set g"
    by (simp_all add: entry)
  have same_names: "nameOf h1 i = nameOf h i" if "i < length (states h)" for i
    using n1 Cons.prems(5) that p(3) by (metis names_inv_def option.inject)
  have empty1: "\<forall>entry \<in> set g. \<forall>s'. m (fst entry) = Some s' \<longrightarrow> m_branches (states h1 ! s') = []"
  proof (intro ballI allI impI)
    fix e s' assume e: "e \<in> set g" and s': "m (fst e) = Some s'"
    from e fresh have "fst e \<noteq> stateName" by auto
    moreover from s s' Cons.prems(5)
    have "nameOf h s' = fst e" "nameOf h s = stateName" "s' < length (states h)"
      by (simp_all add: names_inv_def)
    ultimately have "s' \<noteq> s" "s' < length (states h)" by auto
    with o1 Cons.prems(6) e s' show "m_branches (states h1 ! s') = []" by simp
  qed
  from Cons.IH [OF r d p(1,2) n1 empty1]
  have ih: "names_inv m h'" "length (states h') = length (states h1)"
    "\<forall>entry \<in> set g. \<forall>s. m (fst entry) = Some s \<longrightarrow> targetNames h' s = snd entry"
    "\<forall>s < length (states h1). nameOf h1 s \<notin> fst ` set g \<longrightarrow> targetNames h' s = targetNames h1 s"
    by simp_all
  from ih(4) sl p(3) same_names [OF sl] sn fresh t1'
  have this_entry: "targetNames h' s = branched" by simp
  have others: "targetNames h' s' = targetNames h s'"
    if "s' < length (states h)" "nameOf h s' \<notin> fst ` set (entry # g)" for s'
  proof -
    from that sn have "s' \<noteq> s" by (auto simp: entry)
    with that o1 ih(4) p(3) same_names [OF that(1)] show ?thesis by (simp add: entry)
  qed
  from ih(1,2,3) p(3) this_entry s others show ?case
    by (auto simp: entry)
qed

lemma createGraph_distinct_names:
  "createGraph graph = Inr r \<Longrightarrow> distinct (map fst graph)"
  using createGraph_duplicate [of graph] by auto

lemma createGraph_represents:
  assumes "createGraph graph = Inr (h, start)"
  shows "represents h (nameGraph graph) \<and> start < length (states h) \<and> nameOf h start = ''start''"
proof -
  from assms obtain m h0 where d: "declareStates graph (Map.empty, empty_heap) = Inr (m, h0)"
    and l: "linkStates m graph h0 = Inr h" and s: "m ''start'' = Some start"
    by (auto simp: createGraph_def split: sum.splits option.splits)
  from createGraph_distinct_names [OF assms] have dist: "distinct (map fst graph)" .
  from declareStates_ok [OF dist, of Map.empty empty_heap] d
  have dom: "dom m = fst ` set graph" by simp
  have e: "wf_heap empty_heap" "distinct_branches empty_heap" "wf_names Map.empty empty_heap"
    "names_inv Map.empty empty_heap" "\<forall>st \<in> set (states empty_heap). m_branches st = []"
    by (simp_all add: wf_heap_def distinct_branches_def wf_names_def names_inv_def empty_heap_def)
  from declareStates_wf [OF d e(1,2,3)]
  have p: "wf_heap h0" "distinct_branches h0" by simp_all
  from declareStates_names [OF d e(4,5)]
  have n0: "names_inv m h0" "\<forall>st \<in> set (states h0). m_branches st = []" by simp_all
  from n0 have empty0: "\<forall>entry \<in> set graph. \<forall>s. m (fst entry) = Some s \<longrightarrow>
      m_branches (states h0 ! s) = []"
    by (auto simp: names_inv_def)
  from linkStates_names [OF l dist p n0(1) empty0]
  have n: "names_inv m h"
    and t: "\<forall>entry \<in> set graph. \<forall>s. m (fst entry) = Some s \<longrightarrow> targetNames h s = snd entry"
    by simp_all
  from linkStates_wf [OF l p names_inv_wf_names [OF n0(1)]]
  have w: "wf_heap h" "distinct_branches h" by simp_all
  have inj: "i = j" if "i < length (states h)" "j < length (states h)" "nameOf h i = nameOf h j"
    for i j
    using n that by (metis names_inv_def option.inject)
  have G: "nameGraph graph (nameOf h i) = targetNames h i" if "i < length (states h)" for i
  proof -
    from n that have mi: "m (nameOf h i) = Some i" by (simp add: names_inv_def)
    with dom have "nameOf h i \<in> fst ` set graph" by (metis domI)
    then obtain branched where entry: "(nameOf h i, branched) \<in> set graph" by auto
    with dist have "map_of graph (nameOf h i) = Some branched" by simp
    moreover from t entry mi have "targetNames h i = branched" by auto
    ultimately show ?thesis by (simp add: nameGraph_def)
  qed
  from w inj G n s show ?thesis
    by (auto simp: represents_def targetNames_def names_inv_def)
qed

lemma pathNames_abs: "pathNames h p = map fst (map (absElement h) p)"
  by (simp add: pathNames_def absElement_def nameOf_def)

lemma createGraph_findPaths_names:
  assumes "createGraph graph = Inr (h, start)"
    and "nameFindPathsImpl n (nameGraph graph) ([], [], []) ''start'' = Some (nps, nce, ncp)"
  shows "\<exists>paths cerr. findPaths n h [] start = Inr (paths, cerr) \<and>
           map (pathNames h) paths = map (map fst) nps \<and>
           map (pathNames h) cerr = map (map fst) nce"
proof -
  from createGraph_represents [OF assms(1)]
  have rep: "represents h (nameGraph graph)" and s: "start < length (states h)"
    and n: "nameOf h start = ''start''"
    by simp_all
  from sim_findPathsImpl [OF rep s, of "[]" n "[]" "[]"] assms(2) n
  obtain paths cerr cp where
    r: "findPathsImpl n h ([], [], []) start = Inr (paths, cerr, cp)"
    and a: "absSearch h (paths, cerr, cp) = (nps, nce, ncp)"
    by (auto split: sum.splits)
  from a have "map (pathNames h) paths = map (map fst) nps"
    "map (pathNames h) cerr = map (map fst) nce"
    by (auto simp: pathNames_abs)
  with r show ?thesis by (simp add: findPaths_def)
qed

lemma nameGraph_cong:
  "distinct (map fst g) \<Longrightarrow> distinct (map fst g') \<Longrightarrow> set g = set g' \<Longrightarrow>
   nameGraph g = nameGraph g'"
proof -
  assume "distinct (map fst g)" "distinct (map fst g')" "set g = set g'"
  then have "map_of g = map_of g'" by (simp add: map_of_inject_set)
  then show ?thesis by (simp add: nameGraph_def fun_eq_iff)
qed

lemma createGraph_succeeds:
  assumes "distinct (map fst graph)" "successors graph \<subseteq> fst ` set graph"
    "''start'' \<in> fst ` set graph"
  shows "\<exists>h start. createGraph graph = Inr (h, start)"
  using createGraph_resolved [OF assms(1,2)] assms(3) by simp

lemma ParseGraph_names:
  "nameFindPathsImpl 7 (nameGraph ParseGraph) ([], [], []) ''start'' =
     Some ([[(''start'', Some 0), (''start_loop'', Some 0), (''loop_1'', Some 0),
             (''loop_2'', Some 0), (''start_loop'', Some 1), (''s1'', Some 0),
             (''accept'', None)],
            [(''start'', Some 0), (''start_loop'', Some 0), (''loop_1'', Some 0),
             (''loop_2'', Some 1), (''accept'', None)],
            [(''start'', Some 0), (''start_loop'', Some 1), (''s1'', Some 0), (''accept'', None)],
            [(''start'', Some 1), (''s1'', Some 0), (''accept'', None)]], [], [])"
  by (simp add: nameGraph_def ParseGraph_def nameCanFollow_def eval_nat_numeral upt_rec)

lemma DeadLoopGraph_names:
  "nameFindPathsImpl 4 (nameGraph DeadLoopGraph) ([], [], []) ''start'' =
     Some ([], [[(''start'', Some 0), (''loop_a'', Some 0), (''loop_b'', Some 0),
                 (''loop_a'', None)]], [])"
  by (simp add: nameGraph_def DeadLoopGraph_def nameCanFollow_def eval_nat_numeral upt_rec)

section \<open>The two scenarios\<close>

lemma createGraph_ParseGraph: "createGraph ParseGraph = Inr (ParseGraph_heap, 0)"
  by (simp add: createGraph_def ParseGraph_def empty_heap_def push_branch_def ParseGraph_heap_def)

lemma createGraph_DeadLoopGraph: "createGraph DeadLoopGraph = Inr (DeadLoop_heap, 0)"
  by (simp add: createGraph_def DeadLoopGraph_def empty_heap_def push_branch_def DeadLoop_heap_def)

lemma findPaths_ParseGraph_heap:
  "findPaths 7 ParseGraph_heap [] 0 =
     Inr ([[\<lparr>m_state = 0, m_branch = Some 0\<rparr>, \<lparr>m_state = 1, m_branch = Some 2\<rparr>,
            \<lparr>m_state = 2, m_branch = Some 4\<rparr>, \<lparr>m_state = 3, m_branch = Some 5\<rparr>,
            \<lparr>m_state = 1, m_branch = Some 3\<rparr>, \<lparr>m_state = 4, m_branch = Some 7\<rparr>,
            \<lparr>m_state = 5, m_branch = None\<rparr>],
           [\<lparr>m_state = 0, m_branch = Some 0\<rparr>, \<lparr>m_state = 1, m_branch = Some 2\<rparr>,
            \<lparr>m_state = 2, m_branch = Some 4\<rparr>, \<lparr>m_state = 3, m_branch = Some 6\<rparr>,
            \<lparr>m_state = 5, m_branch = None\<rparr>],
           [\<lparr>m_state = 0, m_branch = Some 0\<rparr>, \<lparr>m_state = 1, m_branch = Some 3\<rparr>,
            \<lparr>m_state = 4, m_branch = Some 7\<rparr>, \<lparr>m_state = 5, m_branch = None\<rparr>],
           [\<lparr>m_state = 0, m_branch = Some 1\<rparr>, \<lparr>m_state = 4, m_branch = Some 7\<rparr>,
            \<lparr>m_state = 5, m_branch = None\<rparr>]],
          [])"
  by (simp add: search_eval ParseGraph_heap_def eval_nat_numeral)

lemma findPaths_DeadLoop_heap:
  "findPaths 4 DeadLoop_heap [] 0 =
     Inr ([], [[\<lparr>m_state = 0, m_branch = Some 0\<rparr>, \<lparr>m_state = 1, m_branch = Some 1\<rparr>,
                \<lparr>m_state = 2, m_branch = Some 2\<rparr>, \<lparr>m_state = 1, m_branch = None\<rparr>]])"
  by (simp add: search_eval DeadLoop_heap_def eval_nat_numeral)

text \<open>
  Claim C1. For the graph \<open>ParseGraph\<close> of the source, in whatever order the map yields
  its entries, \<open>createGraph\<close> succeeds and the search from the state it returns (the state
  named start) finds exactly four paths, in this order: start, start_loop, loop_1, loop_2,
  start_loop, s1, accept; then start, start_loop, loop_1, loop_2, accept; then
  start, start_loop, s1, accept; then start, s1, accept. A recursion depth of 7 is enough,
  and any larger bound gives the same result.
\<close>

theorem concrete_scenario_paths:
  assumes "distinct (map fst graph)" "set graph = set ParseGraph" "7 \<le> n"
  shows "\<exists>h start paths cerr.
     createGraph graph = Inr (h, start) \<and>
     findPaths n h [] start = Inr (paths, cerr) \<and>
     map (pathNames h) paths =
       [[''start'', ''start_loop'', ''loop_1'', ''loop_2'', ''start_loop'', ''s1'', ''accept''],
        [''start'', ''start_loop'', ''loop_1'', ''loop_2'', ''accept''],
        [''start'', ''start_loop'', ''s1'', ''accept''],
        [''start'', ''s1'', ''accept'']]"
proof -
  have "successors graph \<subseteq> fst ` set graph" "''start'' \<in> fst ` set graph"
    unfolding successors_def assms(2) by (simp_all add: ParseGraph_def)
  from createGraph_succeeds [OF assms(1) this] obtain h start where
    c: "createGraph graph = Inr (h, start)" by blast
  have "distinct (map fst ParseGraph)" by (simp add: ParseGraph_def)
  from nameGraph_cong [OF assms(1) this assms(2)]
  have "nameGraph graph = nameGraph ParseGraph" .
  with createGraph_findPaths_names [OF c, of 7] ParseGraph_names
  obtain paths cerr where r: "findPaths 7 h [] start = Inr (paths, cerr)"
    and names: "map (pathNames h) paths =
       [[''start'', ''start_loop'', ''loop_1'', ''loop_2'', ''start_loop'', ''s1'', ''accept''],
        [''start'', ''start_loop'', ''loop_1'', ''loop_2'', ''accept''],
        [''start'', ''start_loop'', ''s1'', ''accept''],
        [''start'', ''s1'', ''accept'']]"
    by auto
  have "findPaths n h [] start = Inr (paths, cerr)"
    by (rule findPaths_fuel_mono [OF r assms(3)])
  with c names show ?thesis by (intro exI conjI)
qed

theorem concrete_scenario_paths_witness:
  "distinct (map fst (rev ParseGraph)) \<and> set (rev ParseGraph) = set ParseGraph \<and> (7::nat) \<le> 7 \<and>
   (\<exists>h start paths cerr.
     createGraph (rev ParseGraph) = Inr (h, start) \<and>
     findPaths 7 h [] start = Inr (paths, cerr) \<and>
     map (pathNames h) paths =
       [[''start'', ''start_loop'', ''loop_1'', ''loop_2'', ''start_loop'', ''s1'', ''accept''],
        [''start'', ''start_loop'', ''loop_1'', ''loop_2'', ''accept''],
        [''start'', ''start_loop'', ''s1'', ''accept''],
        [''start'', ''s1'', ''accept'']])"
proof -
  have "distinct (map fst (rev ParseGraph))"
    by (simp add: ParseGraph_def)
  then have pre: "distinct (map fst (rev ParseGraph))" "set (rev ParseGraph) = set ParseGraph"
    "(7::nat) \<le> 7"
    by simp_all
  from concrete_scenario_paths [OF pre] pre show ?thesis by (intro conjI)
qed

text \<open>
  Claim C2, as the code has it. For the graph start: [loop_a], loop_a: [loop_b],
  loop_b: [loop_a], in whatever order the map yields its entries, the search from start
  finds no path and reports exactly one loop. The path printed with the report is the
  current path at that moment, which already holds the state the search has just entered
  again: start, loop_a, loop_b, loop_a.
\<close>

theorem dead_loop_scenario:
  assumes "distinct (map fst graph)" "set graph = set DeadLoopGraph" "4 \<le> n"
  shows "\<exists>h start reported.
     createGraph graph = Inr (h, start) \<and>
     findPaths n h [] start = Inr ([], [reported]) \<and>
     pathNames h reported = [''start'', ''loop_a'', ''loop_b'', ''loop_a'']"
proof -
  have "successors graph \<subseteq> fst ` set graph" "''start'' \<in> fst ` set graph"
    unfolding successors_def assms(2) by (simp_all add: DeadLoopGraph_def)
  from createGraph_succeeds [OF assms(1) this] obtain h start where
    c: "createGraph graph = Inr (h, start)" by blast
  have "distinct (map fst DeadLoopGraph)" by (simp add: DeadLoopGraph_def)
  from nameGraph_cong [OF assms(1) this assms(2)]
  have "nameGraph graph = nameGraph DeadLoopGraph" .
  with createGraph_findPaths_names [OF c, of 4] DeadLoopGraph_names
  obtain paths cerr where r: "findPaths 4 h [] start = Inr (paths, cerr)"
    and names: "map (pathNames h) paths = []"
      "map (pathNames h) cerr = [[''start'', ''loop_a'', ''loop_b'', ''loop_a'']]"
    by auto
  from names obtain reported where cerr: "cerr = [reported]" "paths = []"
    and rn: "pathNames h reported = [''start'', ''loop_a'', ''loop_b'', ''loop_a'']"
    by (cases cerr) auto
  have "findPaths n h [] start = Inr (paths, cerr)"
    by (rule findPaths_fuel_mono [OF r assms(3)])
  with c cerr rn show ?thesis by (intro exI conjI) simp_all
qed

theorem dead_loop_scenario_witness:
  "distinct (map fst DeadLoopGraph) \<and> set DeadLoopGraph = set DeadLoopGraph \<and> (4::nat) \<le> 4 \<and>
   (\<exists>h start reported.
     createGraph DeadLoopGraph = Inr (h, start) \<and>
     findPaths 4 h [] start = Inr ([], [reported]) \<and>
     pathNames h reported = [''start'', ''loop_a'', ''loop_b'', ''loop_a''])"
proof -
  have pre: "distinct (map fst DeadLoopGraph)" "set DeadLoopGraph = set DeadLoopGraph"
    "(4::nat) \<le> 4"
    by (simp_all add: DeadLoopGraph_def)
  from dead_loop_scenario [OF pre] pre show ?thesis by (intro conjI)
qed

text \<open>
  The claim as the specification words it fails: the path reported with the loop has four
  states, not the three states start, loop_a, loop_b.
\<close>

theorem dead_loop_reported_path_counterexample:
  "createGraph DeadLoopGraph = Inr (DeadLoop_heap, 0) \<and>
   findPaths 4 DeadLoop_heap [] 0 =
     Inr ([], [[\<lparr>m_state = 0, m_branch = Some 0\<rparr>, \<lparr>m_state = 1, m_branch = Some 1\<rparr>,
                \<lparr>m_state = 2, m_branch = Some 2\<rparr>, \<lparr>m_state = 1, m_branch = None\<rparr>]]) \<and>
   pathNames DeadLoop_heap
     [\<lparr>m_state = 0, m_branch = Some 0\<rparr>, \<lparr>m_state = 1, m_branch = Some 1\<rparr>,
      \<lparr>m_state = 2, m_branch = Some 2\<rparr>, \<lparr>m_state = 1, m_branch = None\<rparr>]
     \<noteq> [''start'', ''loop_a'', ''loop_b'']"
  using createGraph_DeadLoopGraph findPaths_DeadLoop_heap
  by (simp add: pathNames_def DeadLoop_heap_def)

text \<open>
  Claim C9. Every call of \<open>findPathsImpl\<close> that returns leaves \<open>currentPath\<close> as it found
  it: the state pushed on entry is popped on exit, whether the state had no branch, some
  branch was followed, or every branch was rejected.
\<close>

theorem findPathsImpl_restores_currentPath:
  "findPathsImpl n h (paths, cerr, currentPath) state = Inr (paths', cerr', currentPath')
   \<Longrightarrow> currentPath' = currentPath"
  by (rule findPathsImpl_restore)

theorem findPathsImpl_restores_currentPath_witness:
  "\<exists>paths' cerr' currentPath'.
     findPathsImpl 3 DeadLoop_heap ([], [], [\<lparr>m_state = 0, m_branch = Some 0\<rparr>]) 1
       = Inr (paths', cerr', currentPath') \<and>
     currentPath' = [\<lparr>m_state = 0, m_branch = Some 0\<rparr>]"
proof -
  have run: "findPathsImpl 3 DeadLoop_heap ([], [], [\<lparr>m_state = 0, m_branch = Some 0\<rparr>]) 1
    = Inr ([],
           [[\<lparr>m_state = 0, m_branch = Some 0\<rparr>, \<lparr>m_state = 1, m_branch = Some 1\<rparr>,
             \<lparr>m_state = 2, m_branch = Some 2\<rparr>, \<lparr>m_state = 1, m_branch = None\<rparr>]],
           [\<lparr>m_state = 0, m_branch = Some 0\<rparr>])"
    by (simp add: search_eval DeadLoop_heap_def eval_nat_numeral)
  from findPathsImpl_restores_currentPath [OF run] run show ?thesis
    by (intro exI conjI)
qed

lemma createGraph_SelfLoopGraph: "createGraph SelfLoopGraph = Inr (SelfLoop_heap, 0)"
  by (simp add: createGraph_def SelfLoopGraph_def empty_heap_def push_branch_def SelfLoop_heap_def)

lemma findPaths_SelfLoop_heap:
  "findPaths 2 SelfLoop_heap [] 0 =
     Inr ([[\<lparr>m_state = 0, m_branch = Some 1\<rparr>, \<lparr>m_state = 1, m_branch = None\<rparr>]], [])"
  by (simp add: search_eval SelfLoop_heap_def eval_nat_numeral)

lemma createGraph_DiamondGraph: "createGraph DiamondGraph = Inr (Diamond_heap, 0)"
  by (simp add: createGraph_def DiamondGraph_def empty_heap_def push_branch_def Diamond_heap_def)

lemma findPaths_Diamond_heap:
  "findPaths 5 Diamond_heap [] 0 =
     Inr ([[\<lparr>m_state = 0, m_branch = Some 0\<rparr>, \<lparr>m_state = 1, m_branch = Some 2\<rparr>,
            \<lparr>m_state = 3, m_branch = None\<rparr>],
           [\<lparr>m_state = 0, m_branch = Some 1\<rparr>, \<lparr>m_state = 2, m_branch = Some 3\<rparr>,
            \<lparr>m_state = 3, m_branch = None\<rparr>]], [])"
  by (simp add: search_eval Diamond_heap_def eval_nat_numeral)

lemma acyclic_increasing:
  fixes r :: "(nat \<times> nat) set"
  assumes "\<And>s t. (s, t) \<in> r \<Longrightarrow> s < t"
  shows "acyclic r"
proof -
  have "acyclic {(s, t). s < (t::nat)}" by (rule wf_acyclic) (rule wf_less)
  moreover from assms have "r \<subseteq> {(s, t). s < t}" by auto
  ultimately show ?thesis by (rule acyclic_subset)
qed

lemma Diamond_heap_acyclic: "acyclic (edges Diamond_heap)"
proof (rule acyclic_increasing)
  fix s t
  assume "(s, t) \<in> edges Diamond_heap"
  then have "s < 4" and e: "\<exists>b \<in> set (m_branches (states Diamond_heap ! s)).
      m_nextState (branches Diamond_heap ! b) = t"
    by (simp_all add: edges_def Diamond_heap_def)
  then have "s = 0 \<or> s = 1 \<or> s = 2 \<or> s = 3" by arith
  with e show "s < t" by (auto simp: Diamond_heap_def)
qed

lemma Diamond_heap_wf:
  "wf_heap Diamond_heap" "distinct_branches Diamond_heap" "length (allElements Diamond_heap) = 4"
  by (simp_all add: wf_heap_def distinct_branches_def allElements_def Diamond_heap_def upt_rec)

lemma DeadLoop_heap_wf:
  "wf_heap DeadLoop_heap" "length (allElements DeadLoop_heap) = 3"
  by (simp_all add: wf_heap_def allElements_def DeadLoop_heap_def upt_rec)

section \<open>Properties of every path found\<close>

text \<open>
  Claim C10. Every path that \<open>findPaths\<close> appends to \<open>paths\<close> is well formed: it is not
  empty, its last element has no chosen branch and its state has no branches, and every
  earlier element has chosen a branch from the branch list of its own state, whose target
  is the state of the next element.
\<close>

theorem completed_paths_well_formed:
  "findPaths n h paths0 state = Inr (paths, cerr) \<Longrightarrow>
   \<exists>new. paths = paths0 @ new \<and>
     (\<forall>p \<in> set new.
        p \<noteq> [] \<and> m_branch (last p) = None \<and> m_state (last p) < length (states h) \<and>
        m_branches (states h ! m_state (last p)) = [] \<and>
        (\<forall>i. Suc i < length p \<longrightarrow>
           (\<exists>b. m_branch (p ! i) = Some b \<and>
                b \<in> set (m_branches (states h ! m_state (p ! i))) \<and>
                b < length (branches h) \<and>
                m_nextState (branches h ! b) = m_state (p ! Suc i))))"
proof -
  assume "findPaths n h paths0 state = Inr (paths, cerr)"
  from findPaths_complete [OF this] obtain new where
    new: "paths = paths0 @ new" "\<forall>p \<in> set new. complete h p"
    by blast
  from new(2) have "\<forall>p \<in> set new.
        p \<noteq> [] \<and> m_branch (last p) = None \<and> m_state (last p) < length (states h) \<and>
        m_branches (states h ! m_state (last p)) = [] \<and>
        (\<forall>i. Suc i < length p \<longrightarrow>
           (\<exists>b. m_branch (p ! i) = Some b \<and>
                b \<in> set (m_branches (states h ! m_state (p ! i))) \<and>
                b < length (branches h) \<and>
                m_nextState (branches h ! b) = m_state (p ! Suc i)))"
    using complete_well_formed by blast
  with new(1) show ?thesis by blast
qed

theorem completed_paths_well_formed_witness:
  "\<exists>paths cerr.
     findPaths 7 ParseGraph_heap [] 0 = Inr (paths, cerr) \<and> length paths = 4 \<and>
     (\<exists>new. paths = [] @ new \<and>
       (\<forall>p \<in> set new.
          p \<noteq> [] \<and> m_branch (last p) = None \<and>
          m_state (last p) < length (states ParseGraph_heap) \<and>
          m_branches (states ParseGraph_heap ! m_state (last p)) = [] \<and>
          (\<forall>i. Suc i < length p \<longrightarrow>
             (\<exists>b. m_branch (p ! i) = Some b \<and>
                  b \<in> set (m_branches (states ParseGraph_heap ! m_state (p ! i))) \<and>
                  b < length (branches ParseGraph_heap) \<and>
                  m_nextState (branches ParseGraph_heap ! b) = m_state (p ! Suc i)))))"
proof -
  obtain paths where
    run: "findPaths 7 ParseGraph_heap [] 0 = Inr (paths, [])" and len: "length paths = 4"
    using findPaths_ParseGraph_heap by simp
  from run len completed_paths_well_formed [OF run]
  have "findPaths 7 ParseGraph_heap [] 0 = Inr (paths, []) \<and> length paths = 4 \<and>
     (\<exists>new. paths = [] @ new \<and>
       (\<forall>p \<in> set new.
          p \<noteq> [] \<and> m_branch (last p) = None \<and>
          m_state (last p) < length (states ParseGraph_heap) \<and>
          m_branches (states ParseGraph_heap ! m_state (last p)) = [] \<and>
          (\<forall>i. Suc i < length p \<longrightarrow>
             (\<exists>b. m_branch (p ! i) = Some b \<and>
                  b \<in> set (m_branches (states ParseGraph_heap ! m_state (p ! i))) \<and>
                  b < length (branches ParseGraph_heap) \<and>
                  m_nextState (branches ParseGraph_heap ! b) = m_state (p ! Suc i)))))"
    by (intro conjI)
  then show ?thesis by (intro exI)
qed

text \<open>
  Claim C4. In every path that \<open>findPaths\<close> appends to \<open>paths\<close> no pair of a state and the
  branch chosen there occurs twice. And \<open>followBranch\<close> refuses a branch whenever some
  element of the current path already pairs the last state with that very branch: the
  test compares the branch itself, not its target.
\<close>

theorem no_branch_reuse:
  "(findPaths n h paths0 state = Inr (paths, cerr) \<longrightarrow>
      (\<exists>new. paths = paths0 @ new \<and>
         (\<forall>p \<in> set new. distinct (map (\<lambda>e. (m_state e, m_branch e)) p)))) \<and>
   (currentPath \<noteq> [] \<and> branch < length (branches h) \<and>
    (\<exists>e \<in> set currentPath.
        m_state e = m_state (last currentPath) \<and> m_branch e = Some branch) \<longrightarrow>
      followBranch h currentPath branch = Inr (False, currentPath))"
proof (intro conjI impI)
  assume "findPaths n h paths0 state = Inr (paths, cerr)"
  from findPaths_complete [OF this] obtain new where
    new: "paths = paths0 @ new" "\<forall>p \<in> set new. complete h p"
    by blast
  from new(2) have "\<forall>p \<in> set new. distinct (map (\<lambda>e. (m_state e, m_branch e)) p)"
    by (auto simp: distinct_pairs dest: complete_distinct)
  with new(1) show "\<exists>new. paths = paths0 @ new \<and>
         (\<forall>p \<in> set new. distinct (map (\<lambda>e. (m_state e, m_branch e)) p))"
    by blast
next
  assume "currentPath \<noteq> [] \<and> branch < length (branches h) \<and>
    (\<exists>e \<in> set currentPath.
        m_state e = m_state (last currentPath) \<and> m_branch e = Some branch)"
  then show "followBranch h currentPath branch = Inr (False, currentPath)"
    by (simp add: followBranch_rejects_taken)
qed

theorem no_branch_reuse_witness:
  "\<exists>paths cerr.
     findPaths 7 ParseGraph_heap [] 0 = Inr (paths, cerr) \<and> length paths = 4 \<and>
     (\<exists>new. paths = [] @ new \<and>
        (\<forall>p \<in> set new. distinct (map (\<lambda>e. (m_state e, m_branch e)) p))) \<and>
     [\<lparr>m_state = 0, m_branch = Some 0\<rparr>, \<lparr>m_state = 1, m_branch = Some 2\<rparr>,
      \<lparr>m_state = 2, m_branch = Some 4\<rparr>, \<lparr>m_state = 3, m_branch = Some 5\<rparr>,
      \<lparr>m_state = 1, m_branch = None\<rparr>] \<noteq> [] \<and>
     2 < length (branches ParseGraph_heap) \<and>
     followBranch ParseGraph_heap
       [\<lparr>m_state = 0, m_branch = Some 0\<rparr>, \<lparr>m_state = 1, m_branch = Some 2\<rparr>,
        \<lparr>m_state = 2, m_branch = Some 4\<rparr>, \<lparr>m_state = 3, m_branch = Some 5\<rparr>,
        \<lparr>m_state = 1, m_branch = None\<rparr>] 2
       = Inr (False,
          [\<lparr>m_state = 0, m_branch = Some 0\<rparr>, \<lparr>m_state = 1, m_branch = Some 2\<rparr>,
           \<lparr>m_state = 2, m_branch = Some 4\<rparr>, \<lparr>m_state = 3, m_branch = Some 5\<rparr>,
           \<lparr>m_state = 1, m_branch = None\<rparr>])"
proof -
  let ?cp = "[\<lparr>m_state = 0, m_branch = Some 0\<rparr>, \<lparr>m_state = 1, m_branch = Some 2\<rparr>,
      \<lparr>m_state = 2, m_branch = Some 4\<rparr>, \<lparr>m_state = 3, m_branch = Some 5\<rparr>,
      \<lparr>m_state = 1, m_branch = None\<rparr>]"
  obtain paths where
    run: "findPaths 7 ParseGraph_heap [] 0 = Inr (paths, [])" and len: "length paths = 4"
    using findPaths_ParseGraph_heap by simp
  have pre: "?cp \<noteq> [] \<and> 2 < length (branches ParseGraph_heap) \<and>
    (\<exists>e \<in> set ?cp. m_state e = m_state (last ?cp) \<and> m_branch e = Some 2)"
    by (simp add: ParseGraph_heap_def)
  from no_branch_reuse [of 7 ParseGraph_heap "[]" 0 paths "[]" ?cp 2] run pre
  have "(\<exists>new. paths = [] @ new \<and>
        (\<forall>p \<in> set new. distinct (map (\<lambda>e. (m_state e, m_branch e)) p)))"
    and "followBranch ParseGraph_heap ?cp 2 = Inr (False, ?cp)"
    by blast+
  with run len pre
  have "findPaths 7 ParseGraph_heap [] 0 = Inr (paths, []) \<and> length paths = 4 \<and>
     (\<exists>new. paths = [] @ new \<and>
        (\<forall>p \<in> set new. distinct (map (\<lambda>e. (m_state e, m_branch e)) p))) \<and>
     ?cp \<noteq> [] \<and> 2 < length (branches ParseGraph_heap) \<and>
     followBranch ParseGraph_heap ?cp 2 = Inr (False, ?cp)"
    by (intro conjI) simp_all
  then show ?thesis by (intro exI)
qed

text \<open>
  Claim C5. A branch that leads back to its own state is never followed: \<open>followBranch\<close>
  refuses it, and in every path that \<open>findPaths\<close> appends to \<open>paths\<close> no chosen branch
  targets the state it leaves, so no two consecutive elements have the same state.
\<close>

theorem no_self_loop_traversal:
  "(findPaths n h paths0 state = Inr (paths, cerr) \<longrightarrow>
      (\<exists>new. paths = paths0 @ new \<and>
         (\<forall>p \<in> set new. \<forall>i. Suc i < length p \<longrightarrow>
            m_state (p ! Suc i) \<noteq> m_state (p ! i) \<and>
            (\<forall>b. m_branch (p ! i) = Some b \<longrightarrow>
               m_nextState (branches h ! b) \<noteq> m_state (p ! i))))) \<and>
   (currentPath \<noteq> [] \<and> branch < length (branches h) \<and>
    m_nextState (branches h ! branch) = m_state (last currentPath) \<longrightarrow>
      followBranch h currentPath branch = Inr (False, currentPath))"
proof (intro conjI impI)
  assume "findPaths n h paths0 state = Inr (paths, cerr)"
  from findPaths_complete [OF this] obtain new where
    new: "paths = paths0 @ new" "\<forall>p \<in> set new. complete h p"
    by blast
  from new(2) have "\<forall>p \<in> set new. \<forall>i. Suc i < length p \<longrightarrow>
            m_state (p ! Suc i) \<noteq> m_state (p ! i) \<and>
            (\<forall>b. m_branch (p ! i) = Some b \<longrightarrow>
               m_nextState (branches h ! b) \<noteq> m_state (p ! i))"
    using complete_no_self_loop by blast
  with new(1) show "\<exists>new. paths = paths0 @ new \<and>
         (\<forall>p \<in> set new. \<forall>i. Suc i < length p \<longrightarrow>
            m_state (p ! Suc i) \<noteq> m_state (p ! i) \<and>
            (\<forall>b. m_branch (p ! i) = Some b \<longrightarrow>
               m_nextState (branches h ! b) \<noteq> m_state (p ! i)))"
    by blast
next
  assume "currentPath \<noteq> [] \<and> branch < length (branches h) \<and>
    m_nextState (branches h ! branch) = m_state (last currentPath)"
  then show "followBranch h currentPath branch = Inr (False, currentPath)"
    by (simp add: followBranch_rejects_self)
qed

theorem no_self_loop_traversal_witness:
  "\<exists>paths cerr.
     createGraph SelfLoopGraph = Inr (SelfLoop_heap, 0) \<and>
     findPaths 2 SelfLoop_heap [] 0 = Inr (paths, cerr) \<and> length paths = 1 \<and>
     (\<exists>new. paths = [] @ new \<and>
         (\<forall>p \<in> set new. \<forall>i. Suc i < length p \<longrightarrow>
            m_state (p ! Suc i) \<noteq> m_state (p ! i) \<and>
            (\<forall>b. m_branch (p ! i) = Some b \<longrightarrow>
               m_nextState (branches SelfLoop_heap ! b) \<noteq> m_state (p ! i)))) \<and>
     [\<lparr>m_state = 0, m_branch = None\<rparr>] \<noteq> [] \<and>
     0 < length (branches SelfLoop_heap) \<and>
     m_nextState (branches SelfLoop_heap ! 0) = m_state (last [\<lparr>m_state = 0, m_branch = None\<rparr>]) \<and>
     followBranch SelfLoop_heap [\<lparr>m_state = 0, m_branch = None\<rparr>] 0
       = Inr (False, [\<lparr>m_state = 0, m_branch = None\<rparr>])"
proof -
  let ?cp = "[\<lparr>m_state = 0, m_branch = None\<rparr>]"
  obtain paths where
    run: "findPaths 2 SelfLoop_heap [] 0 = Inr (paths, [])" and len: "length paths = 1"
    using findPaths_SelfLoop_heap by simp
  have pre: "?cp \<noteq> [] \<and> 0 < length (branches SelfLoop_heap) \<and>
    m_nextState (branches SelfLoop_heap ! 0) = m_state (last ?cp)"
    by (simp add: SelfLoop_heap_def)
  from no_self_loop_traversal [of 2 SelfLoop_heap "[]" 0 paths "[]" ?cp 0] run pre
  have "(\<exists>new. paths = [] @ new \<and>
         (\<forall>p \<in> set new. \<forall>i. Suc i < length p \<longrightarrow>
            m_state (p ! Suc i) \<noteq> m_state (p ! i) \<and>
            (\<forall>b. m_branch (p ! i) = Some b \<longrightarrow>
               m_nextState (branches SelfLoop_heap ! b) \<noteq> m_state (p ! i))))"
    and "followBranch SelfLoop_heap ?cp 0 = Inr (False, ?cp)"
    by blast+
  with run len pre createGraph_SelfLoopGraph
  have "createGraph SelfLoopGraph = Inr (SelfLoop_heap, 0) \<and>
     findPaths 2 SelfLoop_heap [] 0 = Inr (paths, []) \<and> length paths = 1 \<and>
     (\<exists>new. paths = [] @ new \<and>
         (\<forall>p \<in> set new. \<forall>i. Suc i < length p \<longrightarrow>
            m_state (p ! Suc i) \<noteq> m_state (p ! i) \<and>
            (\<forall>b. m_branch (p ! i) = Some b \<longrightarrow>
               m_nextState (branches SelfLoop_heap ! b) \<noteq> m_state (p ! i)))) \<and>
     ?cp \<noteq> [] \<and> 0 < length (branches SelfLoop_heap) \<and>
     m_nextState (branches SelfLoop_heap ! 0) = m_state (last ?cp) \<and>
     followBranch SelfLoop_heap ?cp 0 = Inr (False, ?cp)"
    by (intro conjI) simp_all
  then show ?thesis by (intro exI)
qed

section \<open>Termination and completeness\<close>

text \<open>
  Claim C3. On every well-formed heap, with or without cycles, the search from a state of
  the heap returns, and it returns a list of paths. The recursion never goes deeper than
  the number of pairs of a state and one of its branches, plus one: a bound above that
  number is never exhausted, since the current path holds each such pair at most once.
\<close>

theorem findPaths_terminates:
  "wf_heap h \<Longrightarrow> state < length (states h) \<Longrightarrow> length (allElements h) < n \<Longrightarrow>
   \<exists>paths' cerr. findPaths n h paths state = Inr (paths', cerr)"
  by (rule findPaths_returns)

theorem findPaths_terminates_witness:
  "wf_heap DeadLoop_heap \<and> 0 < length (states DeadLoop_heap) \<and>
   length (allElements DeadLoop_heap) < 4 \<and>
   (\<exists>paths' cerr. findPaths 4 DeadLoop_heap [] 0 = Inr (paths', cerr))"
proof -
  have pre: "wf_heap DeadLoop_heap" "0 < length (states DeadLoop_heap)"
    "length (allElements DeadLoop_heap) < 4"
    by (simp_all add: DeadLoop_heap_wf) (simp add: DeadLoop_heap_def)
  from findPaths_terminates [OF pre] pre show ?thesis by (intro conjI)
qed

lemma createGraph_findPaths_returns:
  assumes "createGraph graph = Inr (h, start)"
  shows "\<exists>paths cerr. findPaths (Suc (length (allElements h))) h [] start = Inr (paths, cerr)"
proof -
  from createGraph_wf [OF assms] have "wf_heap h" "start < length (states h)" by simp_all
  then show ?thesis by (rule findPaths_returns) simp
qed

text \<open>
  Claim C6. On an acyclic well-formed heap in which no state lists a branch twice (as in
  every heap \<open>createGraph\<close> builds), the search from a state returns, reports no loop, and
  the paths it finds are exactly the paths from that state to the states without
  branches, each one once.
\<close>

theorem dag_completeness:
  "acyclic (edges h) \<Longrightarrow> wf_heap h \<Longrightarrow> distinct_branches h \<Longrightarrow> start < length (states h) \<Longrightarrow>
   length (allElements h) < n \<Longrightarrow>
   \<exists>paths. findPaths n h [] start = Inr (paths, []) \<and>
           set paths = {p. sinkPath h start p} \<and> distinct paths"
proof -
  assume acyc: "acyclic (edges h)" and wf: "wf_heap h" and db: "distinct_branches h"
    and start: "start < length (states h)" and n: "length (allElements h) < n"
  from findPaths_returns [OF wf start n, of "[]"] obtain paths cerr cp where
    run: "findPathsImpl n h ([], [], []) start = Inr (paths, cerr, cp)"
    by (auto simp: findPaths_def split: sum.splits)
  from findPathsImpl_dag [OF acyc db run]
  have "distinct paths" "set paths = {p. sinkPath h start p}" "cerr = []"
    by auto
  with run show ?thesis by (simp add: findPaths_def)
qed

theorem dag_completeness_witness:
  "acyclic (edges Diamond_heap) \<and> wf_heap Diamond_heap \<and> distinct_branches Diamond_heap \<and>
   0 < length (states Diamond_heap) \<and> length (allElements Diamond_heap) < 5 \<and>
   (\<exists>paths. findPaths 5 Diamond_heap [] 0 = Inr (paths, []) \<and> length paths = 2 \<and>
            set paths = {p. sinkPath Diamond_heap 0 p} \<and> distinct paths)"
proof -
  have pre: "acyclic (edges Diamond_heap)" "wf_heap Diamond_heap"
    "distinct_branches Diamond_heap" "0 < length (states Diamond_heap)"
    "length (allElements Diamond_heap) < 5"
    by (simp_all add: Diamond_heap_acyclic Diamond_heap_wf) (simp add: Diamond_heap_def)
  from dag_completeness [OF pre] obtain paths where
    r: "findPaths 5 Diamond_heap [] 0 = Inr (paths, [])"
      "set paths = {p. sinkPath Diamond_heap 0 p}" "distinct paths"
    by blast
  from r(1) have "length paths = 2" by (auto simp: findPaths_Diamond_heap)
  with r have "findPaths 5 Diamond_heap [] 0 = Inr (paths, []) \<and> length paths = 2 \<and>
            set paths = {p. sinkPath Diamond_heap 0 p} \<and> distinct paths"
    by (intro conjI)
  then have "\<exists>paths. findPaths 5 Diamond_heap [] 0 = Inr (paths, []) \<and> length paths = 2 \<and>
            set paths = {p. sinkPath Diamond_heap 0 p} \<and> distinct paths" ..
  with pre show ?thesis by (intro conjI)
qed

end
